theory Spec2Isabelle
  imports Complex_Main "HOL-Library.Sublist" "HOL-Library.Log_Nat"
begin

section \<open>JavaScript numbers\<close>

text \<open>
  A JavaScript number is an IEEE 754 double: a finite value, carried here as the real
  number it denotes, or one of the three special values \<open>NaN\<close>, \<open>Infinity\<close> and
  \<open>-Infinity\<close>. An arithmetic operation returns the exact result rounded to the nearest
  double, ties to the even significand, and overflows to an infinity. The sign of zero is
  not modelled: a zero divisor is taken to be \<open>+0\<close>.
\<close>

datatype jsnum = NaN | PosInf | NegInf | Fin real

definition signed_inf :: "bool \<Rightarrow> jsnum" where
  "signed_inf positive = (if positive then PosInf else NegInf)"

definition pow2 :: "int \<Rightarrow> real" where
  "pow2 q = (if 0 \<le> q then 2 ^ nat q else 1 / 2 ^ nat (- q))"

text \<open>The exponent \<open>e\<close> of a positive real \<open>x\<close>: \<open>2^e \<le> x < 2^(e+1)\<close>.\<close>

definition binary_exponent :: "real \<Rightarrow> int" where
  "binary_exponent x = (if 1 \<le> x then bitlen \<lfloor>x\<rfloor> - 1 else - bitlen (\<lceil>1 / x\<rceil> - 1))"

text \<open>The nearest integer, a tie going to the even one.\<close>

definition round_even :: "real \<Rightarrow> int" where
  "round_even y =
     (let f = \<lfloor>y\<rfloor>; r = y - of_int f
      in if r < 1 / 2 then f else if 1 / 2 < r then f + 1 else if even f then f else f + 1)"

text \<open>
  Rounding to a double. A double has a significand of 53 bits and an exponent from -1022 to
  1023, so the doubles around \<open>x\<close> are the multiples of \<open>2^q\<close>, where \<open>q\<close> is the exponent
  of \<open>x\<close> less 52 and at least -1074 (the subnormal range). A result whose exponent
  exceeds 1023 is an infinity.
\<close>

definition round64 :: "real \<Rightarrow> jsnum" where
  "round64 x =
     (if x = 0 then Fin 0
      else
        let q = max (binary_exponent \<bar>x\<bar> - 52) (- 1074);
            y = of_int (round_even (x / pow2 q)) * pow2 q
        in if 1024 \<le> binary_exponent \<bar>y\<bar> then signed_inf (0 < x) else Fin y)"

fun js_neg :: "jsnum \<Rightarrow> jsnum" where
  "js_neg NaN = NaN"
| "js_neg PosInf = NegInf"
| "js_neg NegInf = PosInf"
| "js_neg (Fin a) = Fin (- a)"

fun js_add :: "jsnum \<Rightarrow> jsnum \<Rightarrow> jsnum" where
  "js_add (Fin a) (Fin b) = round64 (a + b)"
| "js_add NaN _ = NaN"
| "js_add _ NaN = NaN"
| "js_add PosInf NegInf = NaN"
| "js_add NegInf PosInf = NaN"
| "js_add PosInf _ = PosInf"
| "js_add _ PosInf = PosInf"
| "js_add NegInf _ = NegInf"
| "js_add _ NegInf = NegInf"

definition js_sub :: "jsnum \<Rightarrow> jsnum \<Rightarrow> jsnum" where
  "js_sub a b = js_add a (js_neg b)"

fun js_mul :: "jsnum \<Rightarrow> jsnum \<Rightarrow> jsnum" where
  "js_mul (Fin a) (Fin b) = round64 (a * b)"
| "js_mul NaN _ = NaN"
| "js_mul _ NaN = NaN"
| "js_mul (Fin a) PosInf = (if a = 0 then NaN else signed_inf (0 < a))"
| "js_mul (Fin a) NegInf = (if a = 0 then NaN else signed_inf (a < 0))"
| "js_mul PosInf (Fin b) = (if b = 0 then NaN else signed_inf (0 < b))"
| "js_mul NegInf (Fin b) = (if b = 0 then NaN else signed_inf (b < 0))"
| "js_mul PosInf PosInf = PosInf"
| "js_mul NegInf NegInf = PosInf"
| "js_mul PosInf NegInf = NegInf"
| "js_mul NegInf PosInf = NegInf"

fun js_div :: "jsnum \<Rightarrow> jsnum \<Rightarrow> jsnum" where
  "js_div (Fin a) (Fin b) =
     (if b = 0 then (if a = 0 then NaN else signed_inf (0 < a)) else round64 (a / b))"
| "js_div NaN _ = NaN"
| "js_div _ NaN = NaN"
| "js_div (Fin a) _ = Fin 0"
| "js_div PosInf (Fin b) = signed_inf (0 \<le> b)"
| "js_div NegInf (Fin b) = signed_inf (b < 0)"
| "js_div _ _ = NaN"

definition trunc :: "real \<Rightarrow> int" where
  "trunc x = (if 0 \<le> x then \<lfloor>x\<rfloor> else \<lceil>x\<rceil>)"

text \<open>
  The remainder operator \<open>%\<close>: the result has the sign of the dividend. The remainder of
  two doubles is a double, so nothing is rounded; so it is for \<open>Math.floor\<close>,
  \<open>Math.ceil\<close>, \<open>Math.round\<close> and \<open>Math.min\<close>.
\<close>

fun js_rem :: "jsnum \<Rightarrow> jsnum \<Rightarrow> jsnum" where
  "js_rem (Fin a) (Fin b) = (if b = 0 then NaN else Fin (a - b * of_int (trunc (a / b))))"
| "js_rem NaN _ = NaN"
| "js_rem _ NaN = NaN"
| "js_rem (Fin a) _ = Fin a"
| "js_rem _ _ = NaN"

fun js_floor :: "jsnum \<Rightarrow> jsnum" where
  "js_floor (Fin a) = Fin (of_int \<lfloor>a\<rfloor>)"
| "js_floor x = x"

fun js_ceil :: "jsnum \<Rightarrow> jsnum" where
  "js_ceil (Fin a) = Fin (of_int \<lceil>a\<rceil>)"
| "js_ceil x = x"

text \<open>\<open>Math.round\<close> rounds half up.\<close>

fun js_round :: "jsnum \<Rightarrow> jsnum" where
  "js_round (Fin a) = Fin (of_int \<lfloor>a + 1 / 2\<rfloor>)"
| "js_round x = x"

fun js_min :: "jsnum \<Rightarrow> jsnum \<Rightarrow> jsnum" where
  "js_min (Fin a) (Fin b) = Fin (min a b)"
| "js_min NaN _ = NaN"
| "js_min _ NaN = NaN"
| "js_min NegInf _ = NegInf"
| "js_min _ NegInf = NegInf"
| "js_min PosInf b = b"
| "js_min a PosInf = a"

text \<open>Comparisons are false as soon as one side is \<open>NaN\<close>.\<close>

fun js_lt :: "jsnum \<Rightarrow> jsnum \<Rightarrow> bool" where
  "js_lt (Fin a) (Fin b) = (a < b)"
| "js_lt NaN _ = False"
| "js_lt _ NaN = False"
| "js_lt PosInf _ = False"
| "js_lt _ NegInf = False"
| "js_lt NegInf _ = True"
| "js_lt _ PosInf = True"

fun js_le :: "jsnum \<Rightarrow> jsnum \<Rightarrow> bool" where
  "js_le (Fin a) (Fin b) = (a \<le> b)"
| "js_le NaN _ = False"
| "js_le _ NaN = False"
| "js_le NegInf _ = True"
| "js_le _ PosInf = True"
| "js_le PosInf _ = False"
| "js_le _ NegInf = False"

definition js_gt :: "jsnum \<Rightarrow> jsnum \<Rightarrow> bool" where
  "js_gt a b = js_lt b a"

definition js_ge :: "jsnum \<Rightarrow> jsnum \<Rightarrow> bool" where
  "js_ge a b = js_le b a"

section \<open>JavaScript strings\<close>

text \<open>
  A string is a list of characters with codes 0 to 255. The white space of \<open>trim\<close>, of
  the regular expression class \<open>\s\<close> and of the number parsers is, in that range: tab,
  line feed, vertical tab, form feed, carriage return, space and the no-break space.
\<close>

definition is_space :: "char \<Rightarrow> bool" where
  "is_space c = ((of_char c :: nat) \<in> {9, 10, 11, 12, 13, 32, 160})"

definition is_digit :: "char \<Rightarrow> bool" where
  "is_digit c = (48 \<le> (of_char c :: nat) \<and> (of_char c :: nat) \<le> 57)"

definition is_lower :: "char \<Rightarrow> bool" where
  "is_lower c = (97 \<le> (of_char c :: nat) \<and> (of_char c :: nat) \<le> 122)"

definition is_punct :: "char \<Rightarrow> bool" where
  "is_punct c = (c = CHR ''.'' \<or> c = CHR ''!'' \<or> c = CHR ''?'')"

definition toUpperCase :: "char \<Rightarrow> char" where
  "toUpperCase c = (if is_lower c then char_of ((of_char c :: nat) - 32) else c)"

definition nl :: char where
  "nl = CHR 0x0A"

definition trim :: "string \<Rightarrow> string" where
  "trim s = rev (dropWhile is_space (rev (dropWhile is_space s)))"

definition padStart :: "nat \<Rightarrow> char \<Rightarrow> string \<Rightarrow> string" where
  "padStart n c s = replicate (n - length s) c @ s"

text \<open>
  \<open>s.split(sep)\<close> for a separator \<open>d # ds\<close> of at least one character: the pieces
  between the leftmost, non-overlapping occurrences of the separator. The result is
  never empty: the empty string splits into one empty piece.
\<close>

fun split_from :: "char \<Rightarrow> string \<Rightarrow> string \<Rightarrow> string \<Rightarrow> string list" where
  "split_from d ds piece [] = [piece]"
| "split_from d ds piece (c # cs) =
     (if c = d \<and> prefix ds cs then piece # split_from d ds [] (drop (length ds) cs)
      else split_from d ds (piece @ [c]) cs)"

fun js_split :: "string \<Rightarrow> string \<Rightarrow> string list" where
  "js_split [] s = map (\<lambda>c. [c]) s"
| "js_split (d # ds) s = split_from d ds [] s"

fun js_join :: "string \<Rightarrow> string list \<Rightarrow> string" where
  "js_join sep [] = []"
| "js_join sep [x] = x"
| "js_join sep (x # y # ys) = x @ sep @ js_join sep (y # ys)"

subsection \<open>Numbers to strings\<close>

definition digit_char :: "nat \<Rightarrow> char" where
  "digit_char d = char_of (48 + d)"

fun nat_toString :: "nat \<Rightarrow> string" where
  "nat_toString n =
     (if n < 10 then [digit_char n] else nat_toString (n div 10) @ [digit_char (n mod 10)])"

declare nat_toString.simps [simp del]

definition int_toString :: "int \<Rightarrow> string" where
  "int_toString i = (if i < 0 then CHR ''-'' # nat_toString (nat (- i)) else nat_toString (nat i))"

text \<open>
  \<open>toString\<close> of a number. The source calls it on results of \<open>Math.floor\<close> only, which
  are integers or special values. An integer below \<open>10^21\<close> prints all its decimal
  digits. From \<open>10^21\<close> on, JavaScript prints the exponent form \<open>d.ddde+x\<close> with the
  fewest digits that still read back as the same double, of which
  \<open>shortest_significand\<close> looks for the digits \<open>s\<close> and their number \<open>k\<close>: \<open>n\<close> is the
  number of digits of the integer, and a candidate \<open>s\<close> stands for \<open>s * 10^(n - k)\<close>. The
  one value with more digits that can read back as the same double is \<open>10^n\<close>.
\<close>

definition reads_as :: "real \<Rightarrow> nat \<Rightarrow> nat \<Rightarrow> nat \<Rightarrow> bool" where
  "reads_as a n k s = (10 ^ (k - 1) \<le> s \<and> s < 10 ^ k \<and> round64 (real s * 10 ^ (n - k)) = Fin a)"

function shortest_significand :: "real \<Rightarrow> nat \<Rightarrow> nat \<Rightarrow> nat \<times> nat" where
  "shortest_significand a n k =
     (if n \<le> k then (nat \<lfloor>a\<rfloor>, n)
      else
        let lo = nat \<lfloor>a / 10 ^ (n - k)\<rfloor>;
            below = a - real lo * 10 ^ (n - k);
            above = real (lo + 1) * 10 ^ (n - k) - a
        in if reads_as a n k lo \<and> reads_as a n k (lo + 1) then
             (if below < above \<or> (below = above \<and> even lo) then (lo, k) else (lo + 1, k))
           else if reads_as a n k lo then (lo, k)
           else if reads_as a n k (lo + 1) then (lo + 1, k)
           else shortest_significand a n (k + 1))"
  by pat_completeness auto
termination
  by (relation "measure (\<lambda>(a, n, k). n - k)") auto

declare shortest_significand.simps [simp del]

definition exponent_form :: "real \<Rightarrow> string" where
  "exponent_form a =
     (let n = length (nat_toString (nat \<lfloor>a\<rfloor>));
          ds = nat_toString (fst (shortest_significand a n 1))
      in if round64 (10 ^ n) = Fin a then ''1e+'' @ nat_toString n
         else (if length ds = 1 then ds else take 1 ds @ ''.'' @ drop 1 ds) @ ''e+'' @
              nat_toString (n - 1))"

fun js_toString :: "jsnum \<Rightarrow> string" where
  "js_toString NaN = ''NaN''"
| "js_toString PosInf = ''Infinity''"
| "js_toString NegInf = ''-Infinity''"
| "js_toString (Fin a) =
     (if \<bar>a\<bar> < 10 ^ 21 then int_toString \<lfloor>a\<rfloor>
      else if a < 0 then CHR ''-'' # exponent_form (- a)
      else exponent_form a)"

subsection \<open>Strings to numbers\<close>

definition digit_of :: "char \<Rightarrow> nat option" where
  "digit_of c =
     (let n = (of_char c :: nat) in
      if 48 \<le> n \<and> n \<le> 57 then Some (n - 48)
      else if 97 \<le> n \<and> n \<le> 102 then Some (n - 87)
      else if 65 \<le> n \<and> n \<le> 70 then Some (n - 55)
      else None)"

definition radix_digit :: "nat \<Rightarrow> char \<Rightarrow> bool" where
  "radix_digit r c = (case digit_of c of Some v \<Rightarrow> v < r | None \<Rightarrow> False)"

definition radix_value :: "nat \<Rightarrow> string \<Rightarrow> nat" where
  "radix_value r s = foldl (\<lambda>a c. a * r + (case digit_of c of Some v \<Rightarrow> v | None \<Rightarrow> 0)) 0 s"

definition pow10 :: "int \<Rightarrow> real" where
  "pow10 e = (if 0 \<le> e then 10 ^ nat e else 1 / 10 ^ nat (- e))"

definition all_digits :: "string \<Rightarrow> nat option" where
  "all_digits ds = (if ds \<noteq> [] \<and> list_all is_digit ds then Some (radix_value 10 ds) else None)"

text \<open>The exponent part of a decimal literal: nothing, or \<open>e\<close>/\<open>E\<close>, a sign, digits.\<close>

definition exponent_part :: "string \<Rightarrow> int option" where
  "exponent_part r =
     (case r of
        [] \<Rightarrow> Some 0
      | c # ds \<Rightarrow>
          if c = CHR ''e'' \<or> c = CHR ''E'' then
            (case ds of
               [] \<Rightarrow> None
             | sg # ds' \<Rightarrow>
                 if sg = CHR ''+'' then map_option int (all_digits ds')
                 else if sg = CHR ''-'' then map_option (\<lambda>n. - int n) (all_digits ds')
                 else map_option int (all_digits ds))
          else None)"

definition unsigned_decimal :: "string \<Rightarrow> jsnum" where
  "unsigned_decimal u =
     (if u = ''Infinity'' then PosInf
      else
        let ip = takeWhile is_digit u;
            r1 = dropWhile is_digit u;
            fp = (case r1 of [] \<Rightarrow> [] | c # r \<Rightarrow> if c = CHR ''.'' then takeWhile is_digit r else []);
            r2 = (case r1 of [] \<Rightarrow> [] | c # r \<Rightarrow> if c = CHR ''.'' then dropWhile is_digit r else r1)
        in if ip = [] \<and> fp = [] then NaN
           else (case exponent_part r2 of
                   None \<Rightarrow> NaN
                 | Some e \<Rightarrow>
                     round64
                       ((real (radix_value 10 ip) + real (radix_value 10 fp) / 10 ^ length fp)
                        * pow10 e)))"

definition nondecimal_radix :: "string \<Rightarrow> nat option" where
  "nondecimal_radix t =
     (case t of
        z # x # _ \<Rightarrow>
          if z \<noteq> CHR ''0'' then None
          else if x = CHR ''x'' \<or> x = CHR ''X'' then Some 16
          else if x = CHR ''o'' \<or> x = CHR ''O'' then Some 8
          else if x = CHR ''b'' \<or> x = CHR ''B'' then Some 2
          else None
      | _ \<Rightarrow> None)"

text \<open>
  \<open>Number(s)\<close> on a string: white space is trimmed, the empty string is 0, then a
  hexadecimal, octal or binary integer literal, or a signed decimal literal or
  \<open>Infinity\<close>; everything else is \<open>NaN\<close>. The value of a literal is rounded to a
  double.
\<close>

definition js_Number :: "string \<Rightarrow> jsnum" where
  "js_Number s =
     (let t = trim s in
      if t = [] then Fin 0
      else
        (case nondecimal_radix t of
           Some r \<Rightarrow>
             (let ds = drop 2 t in
              if ds \<noteq> [] \<and> list_all (radix_digit r) ds then round64 (real (radix_value r ds))
              else NaN)
         | None \<Rightarrow>
             (case t of
                [] \<Rightarrow> Fin 0
              | c # u \<Rightarrow>
                  if c = CHR ''+'' then unsigned_decimal u
                  else if c = CHR ''-'' then js_neg (unsigned_decimal u)
                  else unsigned_decimal t)))"

text \<open>
  \<open>parseInt(s)\<close> with no radix: leading white space and a sign are skipped, \<open>0x\<close>
  selects radix 16, and the longest prefix of digits is read; no digit gives \<open>NaN\<close>.
\<close>

definition js_parseInt :: "string \<Rightarrow> jsnum" where
  "js_parseInt s =
     (let s0 = dropWhile is_space s;
          negative = (case s0 of [] \<Rightarrow> False | c # _ \<Rightarrow> c = CHR ''-'');
          s1 = (case s0 of [] \<Rightarrow> [] | c # r \<Rightarrow> if c = CHR ''-'' \<or> c = CHR ''+'' then r else s0);
          hex = (case s1 of z # x # _ \<Rightarrow> z = CHR ''0'' \<and> (x = CHR ''x'' \<or> x = CHR ''X'') | _ \<Rightarrow> False);
          radix = (if hex then 16 else 10);
          s2 = (if hex then drop 2 s1 else s1);
          z = takeWhile (radix_digit radix) s2
      in if z = [] then NaN
         else if negative then round64 (- real (radix_value radix z))
         else round64 (real (radix_value radix z)))"

section \<open>The subtitle utilities (\<open>utils/srt.js\<close>)\<close>

text \<open>
  A transcription segment \<open>{start, end, text}\<close>; the field names carry a prefix because
  \<open>end\<close> and \<open>text\<close> are reserved words here.
\<close>

record segment =
  seg_start :: jsnum
  seg_end :: jsnum
  seg_text :: string

text \<open>
  The errors a call can end in. \<open>TypeError\<close> is what JavaScript throws on a property
  access on \<open>undefined\<close> or \<open>null\<close>; \<open>FormatError\<close> is the error kind the
  specification names, which no path of the source raises.
\<close>

datatype error = TypeError | FormatError

text \<open>
  The argument of a function that inspects what it was given: any JavaScript value, an
  array being an array of segments.
\<close>

datatype jsval =
  JUndefined | JNull | JBool bool | JNumber jsnum | JString string | JObject
  | JArray "segment list"

fun truthy :: "jsval \<Rightarrow> bool" where
  "truthy JUndefined = False"
| "truthy JNull = False"
| "truthy (JBool b) = b"
| "truthy (JNumber n) = (n \<noteq> NaN \<and> n \<noteq> Fin 0)"
| "truthy (JString s) = (s \<noteq> [])"
| "truthy JObject = True"
| "truthy (JArray xs) = True"

fun isArray :: "jsval \<Rightarrow> bool" where
  "isArray (JArray xs) = True"
| "isArray _ = False"

fun isString :: "jsval \<Rightarrow> bool" where
  "isString (JString s) = True"
| "isString _ = False"

fun elements :: "jsval \<Rightarrow> segment list" where
  "elements (JArray xs) = xs"
| "elements _ = []"

subsection \<open>secondsToSRTTime and srtTimeToSeconds\<close>

definition secondsToSRTTime :: "jsnum \<Rightarrow> string" where
  "secondsToSRTTime seconds =
     (let hours = js_floor (js_div seconds (Fin 3600));
          minutes = js_floor (js_div (js_rem seconds (Fin 3600)) (Fin 60));
          secs = js_floor (js_rem seconds (Fin 60));
          milliseconds = js_floor (js_mul (js_rem seconds (Fin 1)) (Fin 1000))
      in padStart 2 CHR ''0'' (js_toString hours) @ '':'' @
         padStart 2 CHR ''0'' (js_toString minutes) @ '':'' @
         padStart 2 CHR ''0'' (js_toString secs) @ '','' @
         padStart 3 CHR ''0'' (js_toString milliseconds))"

text \<open>
  An array element read by destructuring and used in arithmetic: a missing element is
  \<open>undefined\<close>, which arithmetic turns into \<open>NaN\<close>.
\<close>

definition element_or_NaN :: "jsnum list \<Rightarrow> nat \<Rightarrow> jsnum" where
  "element_or_NaN xs i = (if i < length xs then xs ! i else NaN)"

text \<open>
  \<open>srtTimeToSeconds\<close> checks nothing: it splits at the comma and the colons and lets
  \<open>Number\<close> and \<open>parseInt\<close> read what they find. A missing millisecond part is
  \<open>undefined\<close>, which \<open>parseInt\<close> reads as the string \<open>undefined\<close>.
\<close>

definition srtTimeToSeconds :: "string \<Rightarrow> error + jsnum" where
  "srtTimeToSeconds srtTime =
     (case js_split '','' srtTime of
        [] \<Rightarrow> Inl TypeError
      | time # rest \<Rightarrow>
          (let ms = (case rest of [] \<Rightarrow> ''undefined'' | m # _ \<Rightarrow> m);
               nums = map js_Number (js_split '':'' time);
               hours = element_or_NaN nums 0;
               minutes = element_or_NaN nums 1;
               seconds = element_or_NaN nums 2
           in Inr (js_add
                     (js_add (js_add (js_mul hours (Fin 3600)) (js_mul minutes (Fin 60))) seconds)
                     (js_div (js_parseInt ms) (Fin 1000)))))"

subsection \<open>cleanTextForSRT\<close>

text \<open>\<open>.replace(/\s+/g, ' ')\<close>: every maximal run of white space becomes one space.\<close>

function collapse_spaces :: "string \<Rightarrow> string" where
  "collapse_spaces [] = []"
| "collapse_spaces (c # cs) =
     (if is_space c then CHR '' '' # collapse_spaces (dropWhile is_space cs)
      else c # collapse_spaces cs)"
  by pat_completeness auto
termination
  by (relation "measure length") (auto simp: length_dropWhile_le less_Suc_eq_le)

text \<open>
  \<open>.replace(/<[^>]*>/g, '')\<close>: a \<open><\<close> with a \<open>>\<close> somewhere after it is removed
  together with everything up to the first such \<open>>\<close>.
\<close>

function strip_tags :: "string \<Rightarrow> string" where
  "strip_tags [] = []"
| "strip_tags (c # cs) =
     (if c = CHR ''<'' \<and> CHR ''>'' \<in> set cs
      then strip_tags (drop 1 (dropWhile (\<lambda>x. x \<noteq> CHR ''>'') cs))
      else c # strip_tags cs)"
  by pat_completeness auto
termination
  by (relation "measure length")
     (auto simp: less_Suc_eq_le intro: le_trans [OF diff_le_self length_dropWhile_le])

text \<open>
  \<open>.replace(/\s+([.!?])/g, '$1')\<close>: a maximal run of white space that stands right
  before \<open>.\<close>, \<open>!\<close> or \<open>?\<close> is removed.
\<close>

function unspace_punct :: "string \<Rightarrow> string" where
  "unspace_punct [] = []"
| "unspace_punct (c # cs) =
     (if is_space c then
        (case dropWhile is_space cs of
           [] \<Rightarrow> c # unspace_punct cs
         | p # r \<Rightarrow> if is_punct p then p # unspace_punct r else c # unspace_punct cs)
      else c # unspace_punct cs)"
  by pat_completeness auto
termination
proof (relation "measure length", goal_cases)
  case 1
  show ?case by simp
next
  case (2 c cs)
  show ?case by simp
next
  case (3 c cs p r)
  have "length (dropWhile is_space cs) \<le> length cs"
    by (rule length_dropWhile_le)
  with 3 show ?case by simp
next
  case (4 c cs p r)
  show ?case by simp
next
  case (5 c cs)
  show ?case by simp
qed

text \<open>
  \<open>.replace(/([.!?]\s+)([a-z])/g, ...)\<close>: a lower-case letter that follows \<open>.\<close>, \<open>!\<close>
  or \<open>?\<close> and at least one white space is put in upper case.
\<close>

function capitalize_sentences :: "string \<Rightarrow> string" where
  "capitalize_sentences [] = []"
| "capitalize_sentences (c # cs) =
     (if is_punct c \<and> cs \<noteq> [] \<and> is_space (hd cs) then
        (case dropWhile is_space cs of
           [] \<Rightarrow> c # capitalize_sentences cs
         | l # r \<Rightarrow>
             if is_lower l
             then c # takeWhile is_space cs @ toUpperCase l # capitalize_sentences r
             else c # capitalize_sentences cs)
      else c # capitalize_sentences cs)"
  by pat_completeness auto
termination
proof (relation "measure length", goal_cases)
  case 1
  show ?case by simp
next
  case (2 c cs)
  show ?case by simp
next
  case (3 c cs l r)
  have "length (dropWhile is_space cs) \<le> length cs"
    by (rule length_dropWhile_le)
  with 3 show ?case by simp
next
  case (4 c cs l r)
  show ?case by simp
next
  case (5 c cs)
  show ?case by simp
qed

text \<open>\<open>.replace(/^[a-z]/, ...)\<close>: a lower-case first letter is put in upper case.\<close>

fun capitalize_first :: "string \<Rightarrow> string" where
  "capitalize_first [] = []"
| "capitalize_first (c # cs) = (if is_lower c then toUpperCase c # cs else c # cs)"

definition cleanTextForSRT :: "string \<Rightarrow> string" where
  "cleanTextForSRT text_in =
     (if text_in = [] then []
      else capitalize_first (capitalize_sentences (unspace_punct (strip_tags
             (collapse_spaces (trim text_in))))))"

subsection \<open>generateSRT and generateRemotionCaptions\<close>

text \<open>
  The body of the \<open>forEach\<close> of \<open>generateSRT\<close>: the entry number (1-based), the time
  range, the cleaned text and an empty line are appended to \<open>srtContent\<close>.
\<close>

definition srt_entry :: "nat \<Rightarrow> segment \<Rightarrow> string" where
  "srt_entry index segment =
     nat_toString (index + 1) @ [nl] @
     secondsToSRTTime (seg_start segment) @ '' --> '' @ secondsToSRTTime (seg_end segment) @ [nl] @
     cleanTextForSRT (seg_text segment) @ [nl] @
     [nl]"

fun generateSRT_forEach :: "nat \<Rightarrow> segment list \<Rightarrow> string \<Rightarrow> string" where
  "generateSRT_forEach index [] srtContent = srtContent"
| "generateSRT_forEach index (segment # rest) srtContent =
     generateSRT_forEach (index + 1) rest (srtContent @ srt_entry index segment)"

definition generateSRT :: "jsval \<Rightarrow> string" where
  "generateSRT segments =
     (if \<not> truthy segments \<or> \<not> isArray segments \<or> length (elements segments) = 0 then []
      else trim (generateSRT_forEach 0 (elements segments) []))"

record caption =
  cap_id :: nat
  startTime :: jsnum
  endTime :: jsnum
  cap_text :: string
  duration :: jsnum

definition remotion_caption :: "nat \<Rightarrow> segment \<Rightarrow> caption" where
  "remotion_caption index segment =
     \<lparr>cap_id = index + 1,
      startTime = js_round (js_mul (seg_start segment) (Fin 1000)),
      endTime = js_round (js_mul (seg_end segment) (Fin 1000)),
      cap_text = cleanTextForSRT (seg_text segment),
      duration = js_round (js_mul (js_sub (seg_end segment) (seg_start segment)) (Fin 1000))\<rparr>"

fun remotion_map :: "nat \<Rightarrow> segment list \<Rightarrow> caption list" where
  "remotion_map index [] = []"
| "remotion_map index (segment # rest) =
     remotion_caption index segment # remotion_map (index + 1) rest"

definition generateRemotionCaptions :: "jsval \<Rightarrow> caption list" where
  "generateRemotionCaptions segments =
     (if \<not> truthy segments \<or> \<not> isArray segments then []
      else remotion_map 0 (elements segments))"

subsection \<open>parseSRTContent\<close>

text \<open>
  The regular expression of the time line,
  \<open>(\d{2}:\d{2}:\d{2},\d{3}) --> (\d{2}:\d{2}:\d{2},\d{3})\<close>, is a sequence of
  single-character tests, so a match at a position reads a fixed number of characters.
  It is not anchored: \<open>match\<close> takes the leftmost position where it fits.
\<close>

datatype pattern_char = Digit | Lit char

fun matches_at :: "pattern_char list \<Rightarrow> string \<Rightarrow> bool" where
  "matches_at [] s = True"
| "matches_at (p # ps) [] = False"
| "matches_at (Digit # ps) (c # cs) = (is_digit c \<and> matches_at ps cs)"
| "matches_at (Lit d # ps) (c # cs) = (c = d \<and> matches_at ps cs)"

fun leftmost_match :: "pattern_char list \<Rightarrow> string \<Rightarrow> string option" where
  "leftmost_match ps [] = (if matches_at ps [] then Some [] else None)"
| "leftmost_match ps (c # cs) =
     (if matches_at ps (c # cs) then Some (c # cs) else leftmost_match ps cs)"

definition timestamp_pattern :: "pattern_char list" where
  "timestamp_pattern =
     [Digit, Digit, Lit CHR '':'', Digit, Digit, Lit CHR '':'', Digit, Digit, Lit CHR '','',
      Digit, Digit, Digit]"

definition time_line_pattern :: "pattern_char list" where
  "time_line_pattern = timestamp_pattern @ map Lit '' --> '' @ timestamp_pattern"

text \<open>The two capture groups of the leftmost match, if there is one.\<close>

definition timeMatch :: "string \<Rightarrow> (string \<times> string) option" where
  "timeMatch line =
     (case leftmost_match time_line_pattern line of
        None \<Rightarrow> None
      | Some r \<Rightarrow> Some (take 12 r, take 12 (drop 17 r)))"

fun parse_entries :: "string list \<Rightarrow> segment list \<Rightarrow> error + segment list" where
  "parse_entries [] segments = Inr segments"
| "parse_entries (entry # rest) segments =
     (let lines = js_split [nl] entry in
      if 3 \<le> length lines then
        (case timeMatch (lines ! 1) of
           None \<Rightarrow> parse_entries rest segments
         | Some (m1, m2) \<Rightarrow>
             (case srtTimeToSeconds m1 of
                Inl e \<Rightarrow> Inl e
              | Inr start \<Rightarrow>
                  (case srtTimeToSeconds m2 of
                     Inl e \<Rightarrow> Inl e
                   | Inr end_time \<Rightarrow>
                       parse_entries rest
                         (segments @
                          [\<lparr>seg_start = start, seg_end = end_time,
                            seg_text = trim (js_join [nl] (drop 2 lines))\<rparr>]))))
      else parse_entries rest segments)"

definition parseSRTContent :: "string \<Rightarrow> error + segment list" where
  "parseSRTContent srtContent = parse_entries (js_split [nl, nl] (trim srtContent)) []"

subsection \<open>validateSRT\<close>

record validation =
  isValid :: bool
  errors :: "string list"

text \<open>The loop \<open>for (i = 0; i < segments.length - 1; i++)\<close> over adjacent entries.\<close>

fun overlap_errors :: "nat \<Rightarrow> segment list \<Rightarrow> string list \<Rightarrow> string list" where
  "overlap_errors i (a # b # rest) errs =
     overlap_errors (i + 1) (b # rest)
       (if js_gt (seg_end a) (seg_start b)
        then errs @ [''Overlapping timestamps at entry '' @ nat_toString (i + 1) @ '' and '' @
                     nat_toString (i + 2)]
        else errs)"
| "overlap_errors i _ errs = errs"

fun duration_errors :: "nat \<Rightarrow> segment list \<Rightarrow> string list \<Rightarrow> string list" where
  "duration_errors index [] errs = errs"
| "duration_errors index (segment # rest) errs =
     duration_errors (index + 1) rest
       (if js_le (seg_end segment) (seg_start segment)
        then errs @ [''Invalid duration at entry '' @ nat_toString (index + 1)]
        else errs)"

definition validateSRT :: "jsval \<Rightarrow> error + validation" where
  "validateSRT srtContent =
     (if \<not> truthy srtContent \<or> \<not> isString srtContent
      then Inr \<lparr>isValid = False, errors = [''SRT content is empty or invalid'']\<rparr>
      else
        (case srtContent of
           JString s \<Rightarrow>
             (case parseSRTContent s of
                Inl e \<Rightarrow> Inl e
              | Inr segments \<Rightarrow>
                  if length segments = 0
                  then Inr \<lparr>isValid = False, errors = [''No valid subtitle entries found'']\<rparr>
                  else
                    (let errs = duration_errors 0 segments (overlap_errors 0 segments [])
                     in Inr \<lparr>isValid = (length errs = 0), errors = errs\<rparr>))
         | _ \<Rightarrow> Inl TypeError))"

section \<open>The caption player (\<open>VideoPlayerWithCaptions.jsx\<close>)\<close>

subsection \<open>Chunking the captions\<close>

record subsegment =
  sub_start :: jsnum
  sub_end :: jsnum
  sub_text :: string
  sub_words :: "string list"

text \<open>
  The source fixes the number of words per chunk in a local constant; the loops below
  take it as the parameter \<open>m\<close>. A step of 0 would never leave the \<open>for\<close> loop, so the
  loop is entered for a positive step only.
\<close>

definition maxWordsPerSegment :: nat where
  "maxWordsPerSegment = 6"

definition chunk_piece :: "nat \<Rightarrow> segment \<Rightarrow> string list \<Rightarrow> jsnum \<Rightarrow> nat \<Rightarrow> subsegment" where
  "chunk_piece m caption ws segmentDuration i =
     (let segmentWords = take m (drop i ws);
          segmentStart =
            js_add (seg_start caption)
              (js_mul (js_div (Fin (real i)) (Fin (real m))) segmentDuration);
          segmentEnd =
            js_min
              (js_add (seg_start caption)
                 (js_mul (js_div (Fin (real (i + m))) (Fin (real m))) segmentDuration))
              (seg_end caption)
      in \<lparr>sub_start = segmentStart, sub_end = segmentEnd,
          sub_text = js_join '' '' segmentWords, sub_words = segmentWords\<rparr>)"

function chunk_for ::
  "nat \<Rightarrow> segment \<Rightarrow> string list \<Rightarrow> jsnum \<Rightarrow> nat \<Rightarrow> subsegment list \<Rightarrow> subsegment list" where
  "chunk_for m caption ws segmentDuration i processed =
     (if i < length ws \<and> 0 < m
      then chunk_for m caption ws segmentDuration (i + m)
             (processed @ [chunk_piece m caption ws segmentDuration i])
      else processed)"
  by pat_completeness auto
termination
  by (relation "measure (\<lambda>(m, caption, ws, segmentDuration, i, processed). length ws - i)") auto

declare chunk_for.simps [simp del]

text \<open>The body of \<open>captions.forEach\<close>: the chunks of one caption are pushed to \<open>processed\<close>.\<close>

definition chunk_caption :: "nat \<Rightarrow> segment \<Rightarrow> subsegment list \<Rightarrow> subsegment list" where
  "chunk_caption m caption processed =
     (let ws = js_split '' '' (seg_text caption);
          segmentDuration =
            js_div (js_sub (seg_end caption) (seg_start caption))
              (js_ceil (js_div (Fin (real (length ws))) (Fin (real m))))
      in chunk_for m caption ws segmentDuration 0 processed)"

text \<open>The sub-segments of a single segment.\<close>

definition chunk :: "nat \<Rightarrow> segment \<Rightarrow> subsegment list" where
  "chunk m caption = chunk_caption m caption []"

fun captions_forEach :: "nat \<Rightarrow> segment list \<Rightarrow> subsegment list \<Rightarrow> subsegment list" where
  "captions_forEach m [] processed = processed"
| "captions_forEach m (caption # rest) processed =
     captions_forEach m rest (chunk_caption m caption processed)"

text \<open>The effect that recomputes \<open>processedCaptions\<close>; \<open>None\<close> is a missing \<open>captions\<close> prop.\<close>

definition processCaptions :: "segment list option \<Rightarrow> subsegment list" where
  "processCaptions captions =
     (case captions of
        None \<Rightarrow> []
      | Some cs \<Rightarrow> if length cs = 0 then [] else captions_forEach maxWordsPerSegment cs [])"

subsection \<open>Tracking the current caption and word\<close>

record player_state =
  currentCaption :: string
  currentWords :: "string list"
  highlightedWordIndex :: jsnum

text \<open>\<open>processedCaptions.find(...)\<close>: the first chunk whose closed interval holds the time.\<close>

fun find_current :: "jsnum \<Rightarrow> subsegment list \<Rightarrow> subsegment option" where
  "find_current currentTime [] = None"
| "find_current currentTime (c # rest) =
     (if js_ge currentTime (sub_start c) \<and> js_le currentTime (sub_end c) then Some c
      else find_current currentTime rest)"

definition highlight_update :: "subsegment list \<Rightarrow> jsnum \<Rightarrow> player_state \<Rightarrow> player_state" where
  "highlight_update processedCaptions currentTime st =
     (if length processedCaptions = 0 then st\<lparr>currentCaption := [], currentWords := []\<rparr>
      else
        (case find_current currentTime processedCaptions of
           Some current \<Rightarrow>
             (let segmentProgress =
                    js_div (js_sub currentTime (sub_start current))
                      (js_sub (sub_end current) (sub_start current));
                  wordIndex =
                    js_floor (js_mul segmentProgress (Fin (real (length (sub_words current)))))
              in \<lparr>currentCaption = sub_text current, currentWords = sub_words current,
                  highlightedWordIndex =
                    js_min wordIndex (Fin (real (length (sub_words current)) - 1))\<rparr>)
         | None \<Rightarrow> \<lparr>currentCaption = [], currentWords = [], highlightedWordIndex = Fin 0\<rparr>))"

section \<open>Notions used in the statements\<close>

text \<open>
  The timestamp format as the specification words it: \<open>\d{2}:\d{2}:\d{2},\d{3}\<close>, where
  the hour field may have two or more digits, and nothing before or after.
\<close>

definition spec_timestamp_format :: "string \<Rightarrow> bool" where
  "spec_timestamp_format s =
     (let h = takeWhile is_digit s; r = dropWhile is_digit s
      in 2 \<le> length h \<and> length r = 10 \<and>
         matches_at [Lit CHR '':'', Digit, Digit, Lit CHR '':'', Digit, Digit, Lit CHR '','',
                     Digit, Digit, Digit] r)"

text \<open>
  An entry that \<open>parseSRTContent\<close> accepts: at least three lines, the second of which
  holds a time range. The segment it yields reads the two captured timestamps.
\<close>

definition well_formed_entry :: "string \<Rightarrow> bool" where
  "well_formed_entry entry =
     (case js_split [nl] entry of
        a # b # c # rest \<Rightarrow> timeMatch b \<noteq> None
      | _ \<Rightarrow> False)"

definition seconds_of :: "string \<Rightarrow> jsnum" where
  "seconds_of t = (case srtTimeToSeconds t of Inr v \<Rightarrow> v | Inl e \<Rightarrow> NaN)"

definition entry_segment :: "string \<Rightarrow> segment" where
  "entry_segment entry =
     (let lines = js_split [nl] entry;
          m = (case timeMatch (lines ! 1) of Some p \<Rightarrow> p | None \<Rightarrow> ([], []))
      in \<lparr>seg_start = seconds_of (fst m), seg_end = seconds_of (snd m),
          seg_text = trim (js_join [nl] (drop 2 lines))\<rparr>)"


text \<open>
  \<open>hours * 3600 + minutes * 60 + seconds + millis / 1000\<close> as JavaScript computes it, the
  four numbers being read from decimal digits.
\<close>

definition seconds_from_fields :: "nat \<Rightarrow> nat \<Rightarrow> nat \<Rightarrow> nat \<Rightarrow> jsnum" where
  "seconds_from_fields h m s ms =
     js_add
       (js_add (js_add (js_mul (round64 (real h)) (Fin 3600)) (js_mul (round64 (real m)) (Fin 60)))
          (round64 (real s)))
       (js_div (round64 (real ms)) (Fin 1000))"



text \<open>A text with no markup: no \<open><\<close> at all, or no \<open>>\<close> at all.\<close>

definition tag_free :: "string \<Rightarrow> bool" where
  "tag_free s = (CHR ''<'' \<notin> set s \<or> CHR ''>'' \<notin> set s)"

text \<open>
  The shape of a cleaned text, step by step. White space is \<open>spaced\<close> when every white
  space character is a single space that is followed by another character which is not
  white space.
\<close>

fun spaced :: "string \<Rightarrow> bool" where
  "spaced [] = True"
| "spaced [c] = (\<not> is_space c)"
| "spaced (c # d # s) = ((\<not> is_space c \<or> (c = CHR '' '' \<and> \<not> is_space d)) \<and> spaced (d # s))"

text \<open>No white space stands right before \<open>.\<close>, \<open>!\<close> or \<open>?\<close>.\<close>

fun no_space_before_punct :: "string \<Rightarrow> bool" where
  "no_space_before_punct (c # d # s) =
     (\<not> (is_space c \<and> is_punct d) \<and> no_space_before_punct (d # s))"
| "no_space_before_punct s = True"

text \<open>The text goes on with white space and then a lower-case letter.\<close>

definition lower_after_spaces :: "string \<Rightarrow> bool" where
  "lower_after_spaces cs =
     (cs \<noteq> [] \<and> is_space (hd cs) \<and>
      (case dropWhile is_space cs of [] \<Rightarrow> False | l # r \<Rightarrow> is_lower l))"

text \<open>No sentence starts with a lower-case letter.\<close>

fun capped :: "string \<Rightarrow> bool" where
  "capped [] = True"
| "capped (c # cs) = (\<not> (is_punct c \<and> lower_after_spaces cs) \<and> capped cs)"

text \<open>A character, or its upper-case form if it is a lower-case letter.\<close>

definition upcase_of :: "char \<Rightarrow> char \<Rightarrow> bool" where
  "upcase_of a b = (b = a \<or> (is_lower a \<and> b = toUpperCase a))"






section \<open>Properties of the model\<close>

subsection \<open>Rounding\<close>

lemma round64_zero [simp]: "round64 0 = Fin 0"
  by (simp add: round64_def)










subsection \<open>Decimal digits\<close>







subsection \<open>Reading digit strings\<close>

lemma digit_not_space: "is_digit c \<Longrightarrow> \<not> is_space c"
  by (auto simp: is_digit_def is_space_def)

lemma digit_radix_10: "is_digit c \<Longrightarrow> radix_digit 10 c"
  by (auto simp: is_digit_def radix_digit_def digit_of_def)








lemma length_padStart: "length (padStart k c ds) = max k (length ds)"
  by (simp add: padStart_def)

lemma trim_digits:
  assumes "list_all is_digit ds"
  shows "trim ds = ds"
proof (cases ds rule: rev_cases)
  case Nil
  then show ?thesis by (simp add: trim_def)
next
  case (snoc ys y)
  with assms have y: "\<not> is_space y" by (simp add: digit_not_space)
  show ?thesis
  proof (cases ds)
    case Nil
    then show ?thesis by (simp add: trim_def)
  next
    case (Cons x xs)
    with assms have "\<not> is_space x" by (simp add: digit_not_space)
    with Cons have "dropWhile is_space ds = ds" by simp
    with snoc y show ?thesis by (simp add: trim_def)
  qed
qed

lemma js_Number_digits:
  assumes ds: "list_all is_digit ds" and ne: "ds \<noteq> []"
  shows "js_Number ds = round64 (real (radix_value 10 ds))"
proof -
  from ne obtain c u where cu: "ds = c # u" by (cases ds) auto
  with ds have c: "is_digit c" by simp
  have nr: "nondecimal_radix ds = None"
  proof (cases u)
    case Nil
    with cu show ?thesis by (simp add: nondecimal_radix_def)
  next
    case (Cons x u')
    with cu ds have "is_digit x" by simp
    then have "x \<noteq> CHR ''x''" "x \<noteq> CHR ''X''" "x \<noteq> CHR ''o''" "x \<noteq> CHR ''O''"
      "x \<noteq> CHR ''b''" "x \<noteq> CHR ''B''"
      by (auto simp: is_digit_def)
    with cu Cons show ?thesis by (simp add: nondecimal_radix_def)
  qed
  from c have sign: "c \<noteq> CHR ''+''" "c \<noteq> CHR ''-''" "c \<noteq> CHR ''I''"
    by (auto simp: is_digit_def)
  have tw: "takeWhile is_digit ds = ds" and dw: "dropWhile is_digit ds = []"
    using ds by (simp_all add: list_all_iff)
  from cu sign have inf: "ds \<noteq> ''Infinity''" by auto
  have ud: "unsigned_decimal ds = round64 (real (radix_value 10 ds))"
    using ne inf by (simp add: unsigned_decimal_def tw dw exponent_part_def pow10_def radix_value_def)
  have tr: "trim (c # u) = c # u" using trim_digits [OF ds] cu by simp
  show ?thesis
    using nr sign ud unfolding js_Number_def Let_def cu tr by simp
qed

lemma js_parseInt_digits:
  assumes ds: "list_all is_digit ds" and ne: "ds \<noteq> []"
  shows "js_parseInt ds = round64 (real (radix_value 10 ds))"
proof -
  from ne obtain c u where cu: "ds = c # u" by (cases ds) auto
  with ds have c: "is_digit c" by simp
  then have sp: "\<not> is_space c" by (rule digit_not_space)
  from c have sign: "c \<noteq> CHR ''+''" "c \<noteq> CHR ''-''"
    by (auto simp: is_digit_def)
  have nohex: "(case c # u of z # x # _ \<Rightarrow> z = CHR ''0'' \<and> (x = CHR ''x'' \<or> x = CHR ''X'') | _ \<Rightarrow> False) = False"
  proof (cases u)
    case Nil
    then show ?thesis by simp
  next
    case (Cons x u')
    with cu ds have "is_digit x" by simp
    then have "x \<noteq> CHR ''x''" "x \<noteq> CHR ''X''" by (auto simp: is_digit_def)
    with Cons show ?thesis by simp
  qed
  have rc: "radix_digit 10 c" using c by (rule digit_radix_10)
  have tw: "takeWhile (radix_digit 10) u = u"
    using ds cu by (simp add: list_all_iff digit_radix_10)
  have s0: "dropWhile is_space (c # u) = c # u" using sp by simp
  have s1: "(case c # u of [] \<Rightarrow> [] | a # r \<Rightarrow> if a = CHR ''-'' \<or> a = CHR ''+'' then r else c # u) = c # u"
    using sign by simp
  have ng: "(case c # u of [] \<Rightarrow> False | a # _ \<Rightarrow> a = CHR ''-'') = False"
    using sign by simp
  show ?thesis
    unfolding js_parseInt_def cu s0 Let_def s1 nohex ng
    using rc by (simp add: tw)
qed

subsection \<open>Splitting and reading a timestamp\<close>

lemma split_from_no_separator:
  "d \<notin> set a \<Longrightarrow> split_from d ds piece (a @ s) = split_from d ds (piece @ a) s"
  by (induction a arbitrary: piece) auto

lemma split_from_end: "d \<notin> set a \<Longrightarrow> split_from d ds piece a = [piece @ a]"
  using split_from_no_separator [of d a ds piece "[]"] by simp

lemma split_from_char:
  "d \<notin> set a \<Longrightarrow> split_from d [] piece (a @ d # s) = (piece @ a) # split_from d [] [] s"
  by (simp add: split_from_no_separator)

lemma digits_no_colon: "list_all is_digit ds \<Longrightarrow> CHR '':'' \<notin> set ds"
  by (auto simp: list_all_iff is_digit_def)

lemma digits_no_comma: "list_all is_digit ds \<Longrightarrow> CHR '','' \<notin> set ds"
  by (auto simp: list_all_iff is_digit_def)


lemma split_comma_timestamp:
  assumes "list_all is_digit h" "list_all is_digit m" "list_all is_digit sc" "list_all is_digit ms"
  shows "js_split '','' (h @ CHR '':'' # m @ CHR '':'' # sc @ CHR '','' # ms) =
    [h @ CHR '':'' # m @ CHR '':'' # sc, ms]"
proof -
  have "CHR '','' \<notin> set (h @ CHR '':'' # m @ CHR '':'' # sc)"
    using assms by (simp add: digits_no_comma)
  then have "split_from CHR '','' [] [] ((h @ CHR '':'' # m @ CHR '':'' # sc) @ CHR '','' # ms) =
      ([] @ (h @ CHR '':'' # m @ CHR '':'' # sc)) # split_from CHR '','' [] [] ms"
    by (rule split_from_char)
  moreover have "split_from CHR '','' [] [] ms = [[] @ ms]"
    using assms by (intro split_from_end digits_no_comma)
  ultimately show ?thesis by simp
qed

lemma split_colon_time:
  assumes "list_all is_digit h" "list_all is_digit m" "list_all is_digit sc"
  shows "js_split '':'' (h @ CHR '':'' # m @ CHR '':'' # sc) = [h, m, sc]"
proof -
  have "split_from CHR '':'' [] [] (h @ CHR '':'' # (m @ CHR '':'' # sc)) =
      ([] @ h) # split_from CHR '':'' [] [] (m @ CHR '':'' # sc)"
    using assms by (intro split_from_char digits_no_colon)
  moreover have "split_from CHR '':'' [] [] (m @ CHR '':'' # sc) = ([] @ m) # split_from CHR '':'' [] [] sc"
    using assms by (intro split_from_char digits_no_colon)
  moreover have "split_from CHR '':'' [] [] sc = [[] @ sc]"
    using assms by (intro split_from_end digits_no_colon)
  ultimately show ?thesis by simp
qed

lemma srtTimeToSeconds_digits:
  assumes "list_all is_digit h" "list_all is_digit m" "list_all is_digit sc" "list_all is_digit ms"
    and "h \<noteq> []" "m \<noteq> []" "sc \<noteq> []" "ms \<noteq> []"
  shows "srtTimeToSeconds (h @ '':'' @ m @ '':'' @ sc @ '','' @ ms) =
    Inr (seconds_from_fields (radix_value 10 h) (radix_value 10 m) (radix_value 10 sc)
           (radix_value 10 ms))"
  using assms
  by (simp add: srtTimeToSeconds_def split_comma_timestamp split_colon_time js_Number_digits
      js_parseInt_digits element_or_NaN_def seconds_from_fields_def del: js_split.simps)

lemma js_split_nonempty: "js_split (d # ds) s \<noteq> []"
proof -
  have "split_from d ds piece s \<noteq> []" for piece
    by (induction d ds piece s rule: split_from.induct) auto
  then show ?thesis by simp
qed

lemma srtTimeToSeconds_returns: "\<exists>v. srtTimeToSeconds s = Inr v"
proof (cases "js_split '','' s")
  case Nil
  with js_split_nonempty [of "CHR '',''" "[]" s] show ?thesis by simp
next
  case (Cons time rest)
  then show ?thesis by (simp add: srtTimeToSeconds_def Let_def)
qed

subsection \<open>The fields of a printed timestamp\<close>








subsection \<open>Printing a time and reading it back\<close>






subsection \<open>validateSRT on the empty string\<close>

text \<open>
  Claim C9, as amended. \<open>validateSRT\<close> applied to the empty string returns exactly
  \<open>{isValid: false, errors: ["SRT content is empty or invalid"]}\<close>: one error, whose
  message starts with \<open>SRT\<close>.
\<close>

theorem validateSRT_empty:
  "validateSRT (JString []) = Inr \<lparr>isValid = False, errors = [''SRT content is empty or invalid'']\<rparr>"
  by (simp add: validateSRT_def)

theorem validateSRT_empty_witness:
  "\<exists>r. validateSRT (JString []) = Inr r \<and> isValid r = False \<and> length (errors r) = 1"
  using validateSRT_empty by simp

text \<open>
  Against claim C9 as stated: the result is not the one with the message
  \<open>content is empty or invalid\<close>.
\<close>

theorem validateSRT_empty_message:
  "validateSRT (JString []) \<noteq> Inr \<lparr>isValid = False, errors = [''content is empty or invalid'']\<rparr>"
  by (simp add: validateSRT_def)

subsection \<open>The generators on an argument that is not an array\<close>

text \<open>
  Claim C10. For every argument that is not an array, which includes \<open>null\<close> and
  \<open>undefined\<close>, \<open>generateSRT\<close> returns the empty string and
  \<open>generateRemotionCaptions\<close> returns the empty list. Both return at their guard, before
  any property of the argument is read, so neither can throw.
\<close>

theorem generate_not_array:
  "\<not> isArray v \<Longrightarrow> generateSRT v = [] \<and> generateRemotionCaptions v = []"
  by (simp add: generateSRT_def generateRemotionCaptions_def)

theorem generate_not_array_witness:
  "generateSRT JNull = [] \<and> generateRemotionCaptions JNull = [] \<and>
   generateSRT JUndefined = [] \<and> generateRemotionCaptions JUndefined = [] \<and>
   generateSRT (JString ''abc'') = [] \<and> generateRemotionCaptions (JNumber (Fin 3)) = []"
  using generate_not_array [of JNull] generate_not_array [of JUndefined]
    generate_not_array [of "JString ''abc''"] generate_not_array [of "JNumber (Fin 3)"]
  by simp

subsection \<open>The highlighted word of a zero-width chunk\<close>

lemma find_current_Some:
  "find_current t cs = Some c \<Longrightarrow> js_ge t (sub_start c) \<and> js_le t (sub_end c) \<and> cs \<noteq> []"
  by (induction cs) (auto split: if_splits)

text \<open>
  Claim C7 fails on the code. When the current chunk has \<open>end = start\<close>, the progress
  is \<open>0 / 0\<close>: the highlighted word index is \<open>NaN\<close>, not the last word's index.
\<close>

theorem zero_width_chunk_index:
  assumes "find_current (Fin t) cs = Some c" and "sub_start c = Fin s" and "sub_end c = Fin s"
  shows "highlightedWordIndex (highlight_update cs (Fin t) st) = NaN"
proof -
  from find_current_Some [OF assms(1)] assms(2,3) have "s \<le> t" "t \<le> s" "cs \<noteq> []"
    by (simp_all add: js_ge_def)
  then have "t = s" by simp
  with assms \<open>cs \<noteq> []\<close> show ?thesis
    by (simp add: highlight_update_def js_sub_def)
qed

theorem zero_width_chunk_index_witness:
  "chunk maxWordsPerSegment \<lparr>seg_start = Fin 1, seg_end = Fin 1, seg_text = ''hi there''\<rparr> =
     [\<lparr>sub_start = Fin 1, sub_end = Fin 1, sub_text = ''hi there'', sub_words = [''hi'', ''there'']\<rparr>] \<and>
   highlightedWordIndex
     (highlight_update
        [\<lparr>sub_start = Fin 1, sub_end = Fin 1, sub_text = ''hi there'', sub_words = [''hi'', ''there'']\<rparr>]
        (Fin 1) \<lparr>currentCaption = [], currentWords = [], highlightedWordIndex = Fin 0\<rparr>) = NaN"
proof -
  have a: "chunk maxWordsPerSegment \<lparr>seg_start = Fin 1, seg_end = Fin 1, seg_text = ''hi there''\<rparr> =
     [\<lparr>sub_start = Fin 1, sub_end = Fin 1, sub_text = ''hi there'', sub_words = [''hi'', ''there'']\<rparr>]"
    by code_simp
  have f: "find_current (Fin 1)
      [\<lparr>sub_start = Fin 1, sub_end = Fin 1, sub_text = ''hi there'', sub_words = [''hi'', ''there'']\<rparr>] =
      Some \<lparr>sub_start = Fin 1, sub_end = Fin 1, sub_text = ''hi there'', sub_words = [''hi'', ''there'']\<rparr>"
    by (simp add: js_ge_def)
  from zero_width_chunk_index [OF f, of 1] a show ?thesis by simp
qed

subsection \<open>srtTimeToSeconds checks no format\<close>

text \<open>
  Against claim C5: \<open>bad\<close> does not have the timestamp format, and
  \<open>srtTimeToSeconds\<close> returns \<open>NaN\<close> for it; it does not fail.
\<close>

theorem srtTimeToSeconds_bad:
  "\<not> spec_timestamp_format ''bad'' \<and> srtTimeToSeconds ''bad'' = Inr NaN \<and>
   srtTimeToSeconds ''bad'' \<noteq> Inl FormatError"
proof -
  have "\<not> spec_timestamp_format ''bad''" by code_simp
  moreover have "srtTimeToSeconds ''bad'' = Inr NaN" by code_simp
  ultimately show ?thesis by simp
qed

subsection \<open>parseSRTContent skips what it cannot read\<close>

text \<open>
  Against claim C6: \<open>hello\<close> is not empty, not white space and holds no well-formed
  entry, and \<open>parseSRTContent\<close> returns the empty list for it; it does not fail.
\<close>

theorem parse_no_entry:
  "trim ''hello'' \<noteq> [] \<and> \<not> well_formed_entry ''hello'' \<and> parseSRTContent ''hello'' = Inr [] \<and>
   parseSRTContent ''hello'' \<noteq> Inl FormatError"
proof -
  have "trim ''hello'' \<noteq> []" by code_simp
  moreover have "\<not> well_formed_entry ''hello''" by code_simp
  moreover have "parseSRTContent ''hello'' = Inr []" by code_simp
  ultimately show ?thesis by simp
qed

lemma parse_entries_filter:
  "parse_entries es acc = Inr (acc @ map entry_segment (filter well_formed_entry es))"
proof (induction es arbitrary: acc)
  case Nil
  show ?case by simp
next
  case (Cons entry es)
  show ?case
  proof (cases "well_formed_entry entry")
    case False
    then have "\<not> 3 \<le> length (js_split [nl] entry) \<or> timeMatch (js_split [nl] entry ! 1) = None"
      by (auto simp: well_formed_entry_def split: list.splits)
    with False Cons show ?thesis
      by (auto simp: Let_def simp del: js_split.simps)
  next
    case True
    then obtain a b c rest where l: "js_split [nl] entry = a # b # c # rest"
      and tm: "timeMatch b \<noteq> None"
      by (auto simp: well_formed_entry_def split: list.splits)
    from tm obtain m1 m2 where m: "timeMatch b = Some (m1, m2)" by auto
    obtain v1 where v1: "srtTimeToSeconds m1 = Inr v1" using srtTimeToSeconds_returns by blast
    obtain v2 where v2: "srtTimeToSeconds m2 = Inr v2" using srtTimeToSeconds_returns by blast
    have es: "entry_segment entry = \<lparr>seg_start = v1, seg_end = v2, seg_text = trim (js_join [nl] (c # rest))\<rparr>"
      unfolding entry_segment_def Let_def l by (simp add: m seconds_of_def v1 v2)
    have "parse_entries (entry # es) acc =
        parse_entries es (acc @ [\<lparr>seg_start = v1, seg_end = v2, seg_text = trim (js_join [nl] (c # rest))\<rparr>])"
      by (simp add: Let_def l m v1 v2 del: js_split.simps)
    with True es Cons show ?thesis by simp
  qed
qed

text \<open>
  Claim C6, as amended. \<open>parseSRTContent\<close> never fails on a string: it returns, in
  order, the segments of the entries that are well formed (at least three lines, the
  second holding a time range) and silently skips every other entry. With no well-formed
  entry the result is the empty list.
\<close>

theorem parseSRTContent_lenient:
  "parseSRTContent s =
     Inr (map entry_segment (filter well_formed_entry (js_split [nl, nl] (trim s)))) \<and>
   ((\<forall>e \<in> set (js_split [nl, nl] (trim s)). \<not> well_formed_entry e) \<longrightarrow> parseSRTContent s = Inr [])"
proof -
  have a: "parseSRTContent s = Inr (map entry_segment (filter well_formed_entry (js_split [nl, nl] (trim s))))"
    unfolding parseSRTContent_def by (simp add: parse_entries_filter del: js_split.simps)
  moreover have "(\<forall>e \<in> set (js_split [nl, nl] (trim s)). \<not> well_formed_entry e) \<longrightarrow>
      filter well_formed_entry (js_split [nl, nl] (trim s)) = []"
    by (simp add: filter_empty_conv del: js_split.simps)
  ultimately show ?thesis by (simp del: js_split.simps)
qed

theorem parseSRTContent_lenient_witness:
  "parseSRTContent
     (''1'' @ [nl] @ ''00:00:01,000 --> 00:00:02,000'' @ [nl] @ ''Hello'' @ [nl, nl] @
      ''not an entry'' @ [nl, nl] @
      ''3'' @ [nl] @ ''00:00:03,000 --> 00:00:04,500'' @ [nl] @ ''Bye'') =
     Inr [\<lparr>seg_start = Fin 1, seg_end = Fin 2, seg_text = ''Hello''\<rparr>,
          \<lparr>seg_start = Fin 3, seg_end = Fin (9 / 2), seg_text = ''Bye''\<rparr>] \<and>
   parseSRTContent ''hello'' = Inr []"
proof -
  let ?s = "''1'' @ [nl] @ ''00:00:01,000 --> 00:00:02,000'' @ [nl] @ ''Hello'' @ [nl, nl] @
      ''not an entry'' @ [nl, nl] @
      ''3'' @ [nl] @ ''00:00:03,000 --> 00:00:04,500'' @ [nl] @ ''Bye''"
  have e: "map entry_segment (filter well_formed_entry (js_split [nl, nl] (trim ?s))) =
      [\<lparr>seg_start = Fin 1, seg_end = Fin 2, seg_text = ''Hello''\<rparr>,
       \<lparr>seg_start = Fin 3, seg_end = Fin (9 / 2), seg_text = ''Bye''\<rparr>]"
    by code_simp
  have n: "\<forall>e \<in> set (js_split [nl, nl] (trim ''hello'')). \<not> well_formed_entry e"
    by code_simp
  from parseSRTContent_lenient [of ?s] have "parseSRTContent ?s =
      Inr (map entry_segment (filter well_formed_entry (js_split [nl, nl] (trim ?s))))"
    by (rule conjunct1)
  moreover from parseSRTContent_lenient [of "''hello''"] n have "parseSRTContent ''hello'' = Inr []"
    by blast
  ultimately show ?thesis by (simp only: e)
qed

subsection \<open>srtTimeToSeconds on well-formed and other strings\<close>

lemma format_parts:
  assumes "spec_timestamp_format s"
  shows "\<exists>h m sc ms. s = h @ '':'' @ m @ '':'' @ sc @ '','' @ ms \<and>
           list_all is_digit h \<and> list_all is_digit m \<and> list_all is_digit sc \<and> list_all is_digit ms \<and>
           h \<noteq> [] \<and> m \<noteq> [] \<and> sc \<noteq> [] \<and> ms \<noteq> [] \<and>
           h = takeWhile is_digit s \<and> m = take 2 (drop 1 (dropWhile is_digit s)) \<and>
           sc = take 2 (drop 4 (dropWhile is_digit s)) \<and> ms = take 3 (drop 7 (dropWhile is_digit s))"
proof -
  define h where "h = takeWhile is_digit s"
  define r where "r = dropWhile is_digit s"
  from assms have len: "2 \<le> length h" "length r = 10"
    and ma: "matches_at [Lit CHR '':'', Digit, Digit, Lit CHR '':'', Digit, Digit, Lit CHR '','',
                     Digit, Digit, Digit] r"
    by (simp_all add: spec_timestamp_format_def h_def r_def Let_def)
  from len(2) obtain r0 r1 r2 r3 r4 r5 r6 r7 r8 r9 where r: "r = [r0, r1, r2, r3, r4, r5, r6, r7, r8, r9]"
    by (auto simp: eval_nat_numeral length_Suc_conv)
  have s: "s = h @ r" by (simp add: h_def r_def)
  have hd: "list_all is_digit h" by (simp add: h_def list_all_iff) (meson set_takeWhileD)
  from len have hne: "h \<noteq> []" by auto
  from ma r have d: "r0 = CHR '':''" "is_digit r1" "is_digit r2" "r3 = CHR '':''" "is_digit r4" "is_digit r5"
    "r6 = CHR '',''" "is_digit r7" "is_digit r8" "is_digit r9"
    by simp_all
  have c1: "s = h @ '':'' @ [r1, r2] @ '':'' @ [r4, r5] @ '','' @ [r7, r8, r9]"
    using d by (simp add: s r)
  have c2: "[r1, r2] = take 2 (drop 1 (dropWhile is_digit s))"
    "[r4, r5] = take 2 (drop 4 (dropWhile is_digit s))"
    "[r7, r8, r9] = take 3 (drop 7 (dropWhile is_digit s))"
    unfolding r_def [symmetric] r by simp_all
  have c3: "list_all is_digit [r1, r2]" "list_all is_digit [r4, r5]" "list_all is_digit [r7, r8, r9]"
    using d by simp_all
  from c1 c2 c3 hd hne h_def show ?thesis
    by blast
qed

text \<open>
  Claim C5, as amended. \<open>srtTimeToSeconds\<close> never fails on a string: it always returns
  a number (\<open>NaN\<close> where \<open>Number\<close> or \<open>parseInt\<close> cannot read a part, as for
  \<open>bad\<close>). On a string of the format \<open>\d{2,}:\d{2}:\d{2},\d{3}\<close> it returns
  \<open>hours * 3600 + minutes * 60 + seconds + millis / 1000\<close>, computed in double
  arithmetic.
\<close>

theorem srtTimeToSeconds_lenient:
  "(\<exists>v. srtTimeToSeconds s = Inr v) \<and>
   (spec_timestamp_format s \<longrightarrow>
      srtTimeToSeconds s =
        Inr (seconds_from_fields
               (radix_value 10 (takeWhile is_digit s))
               (radix_value 10 (take 2 (drop 1 (dropWhile is_digit s))))
               (radix_value 10 (take 2 (drop 4 (dropWhile is_digit s))))
               (radix_value 10 (take 3 (drop 7 (dropWhile is_digit s))))))"
proof (intro conjI impI)
  show "\<exists>v. srtTimeToSeconds s = Inr v" by (rule srtTimeToSeconds_returns)
next
  assume "spec_timestamp_format s"
  from format_parts [OF this] obtain h m sc ms where
    s: "s = h @ '':'' @ m @ '':'' @ sc @ '','' @ ms" and
    dg: "list_all is_digit h" "list_all is_digit m" "list_all is_digit sc" "list_all is_digit ms"
      "h \<noteq> []" "m \<noteq> []" "sc \<noteq> []" "ms \<noteq> []" and
    eq: "h = takeWhile is_digit s" "m = take 2 (drop 1 (dropWhile is_digit s))"
      "sc = take 2 (drop 4 (dropWhile is_digit s))" "ms = take 3 (drop 7 (dropWhile is_digit s))"
    by blast
  have "srtTimeToSeconds (h @ '':'' @ m @ '':'' @ sc @ '','' @ ms) =
    Inr (seconds_from_fields (radix_value 10 h) (radix_value 10 m) (radix_value 10 sc)
           (radix_value 10 ms))"
    using dg by (rule srtTimeToSeconds_digits)
  then show "srtTimeToSeconds s =
        Inr (seconds_from_fields
               (radix_value 10 (takeWhile is_digit s))
               (radix_value 10 (take 2 (drop 1 (dropWhile is_digit s))))
               (radix_value 10 (take 2 (drop 4 (dropWhile is_digit s))))
               (radix_value 10 (take 3 (drop 7 (dropWhile is_digit s)))))"
    by (simp only: s [symmetric] eq [symmetric])
qed

theorem srtTimeToSeconds_lenient_witness:
  "spec_timestamp_format ''00:01:05,500'' \<and> srtTimeToSeconds ''00:01:05,500'' = Inr (Fin (131 / 2)) \<and>
   (\<exists>v. srtTimeToSeconds ''bad'' = Inr v)"
proof -
  have f: "spec_timestamp_format ''00:01:05,500''" by code_simp
  have v: "seconds_from_fields
               (radix_value 10 (takeWhile is_digit ''00:01:05,500''))
               (radix_value 10 (take 2 (drop 1 (dropWhile is_digit ''00:01:05,500''))))
               (radix_value 10 (take 2 (drop 4 (dropWhile is_digit ''00:01:05,500''))))
               (radix_value 10 (take 3 (drop 7 (dropWhile is_digit ''00:01:05,500'')))) =
             Fin (131 / 2)"
    by code_simp
  from srtTimeToSeconds_lenient [of "''00:01:05,500''"] f
  have "srtTimeToSeconds ''00:01:05,500'' = Inr (Fin (131 / 2))"
    unfolding v by blast
  moreover from srtTimeToSeconds_lenient [of "''bad''"] have "\<exists>v. srtTimeToSeconds ''bad'' = Inr v"
    by (rule conjunct1)
  ultimately show ?thesis using f by blast
qed

subsection \<open>The chunking loop\<close>

lemma chunk_for_append: "chunk_for m c ws d i acc = acc @ chunk_for m c ws d i []"
proof (induction "length ws - i" arbitrary: i acc rule: less_induct)
  case less
  show ?case
  proof (cases "i < length ws \<and> 0 < m")
    case True
    then have lt: "length ws - (i + m) < length ws - i" by arith
    have "chunk_for m c ws d i acc = chunk_for m c ws d (i + m) (acc @ [chunk_piece m c ws d i])"
      using True by (subst chunk_for.simps) simp
    also have "\<dots> = (acc @ [chunk_piece m c ws d i]) @ chunk_for m c ws d (i + m) []"
      by (rule less [OF lt])
    finally have a: "chunk_for m c ws d i acc =
        acc @ chunk_piece m c ws d i # chunk_for m c ws d (i + m) []"
      by simp
    have "chunk_for m c ws d i [] = chunk_for m c ws d (i + m) ([] @ [chunk_piece m c ws d i])"
      using True by (subst chunk_for.simps) simp
    also have "\<dots> = ([] @ [chunk_piece m c ws d i]) @ chunk_for m c ws d (i + m) []"
      by (rule less [OF lt])
    finally show ?thesis using a by simp
  next
    case False
    have "chunk_for m c ws d i acc = acc" "chunk_for m c ws d i [] = []"
      using False by (subst chunk_for.simps, simp)+
    then show ?thesis by simp
  qed
qed

lemma chunk_for_step:
  assumes "i < length ws" and "0 < m"
  shows "chunk_for m c ws d i [] = chunk_piece m c ws d i # chunk_for m c ws d (i + m) []"
proof -
  have "chunk_for m c ws d i [] = chunk_for m c ws d (i + m) ([] @ [chunk_piece m c ws d i])"
    using assms by (subst chunk_for.simps) simp
  also have "\<dots> = ([] @ [chunk_piece m c ws d i]) @ chunk_for m c ws d (i + m) []"
    by (rule chunk_for_append)
  finally show ?thesis by simp
qed

lemma chunk_for_done: "\<not> i < length ws \<Longrightarrow> chunk_for m c ws d i [] = []"
  by (subst chunk_for.simps) simp








lemma split_from_length: "0 < length (split_from d ds piece s)"
  by (induction d ds piece s rule: split_from.induct) auto

lemma chunk_first:
  assumes "0 < m"
  shows "\<exists>d. chunk m c = chunk_for m c (js_split '' '' (seg_text c)) d 0 [] \<and>
             chunk m c =
               chunk_piece m c (js_split '' '' (seg_text c)) d 0 #
               chunk_for m c (js_split '' '' (seg_text c)) d (0 + m) []"
proof -
  let ?ws = "js_split '' '' (seg_text c)"
  let ?d = "js_div (js_sub (seg_end c) (seg_start c))
              (js_ceil (js_div (Fin (real (length ?ws))) (Fin (real m))))"
  have u: "chunk m c = chunk_for m c ?ws ?d 0 []"
    by (simp add: chunk_def chunk_caption_def Let_def del: js_split.simps)
  have "0 < length ?ws" using split_from_length by simp
  then have "chunk_for m c ?ws ?d 0 [] = chunk_piece m c ?ws ?d 0 # chunk_for m c ?ws ?d (0 + m) []"
    using assms by (rule chunk_for_step)
  with u show ?thesis by metis
qed

subsection \<open>The chunks of a segment\<close>




text \<open>
  Against claim C8: for the empty text, and for a text of two spaces, \<open>chunk\<close> returns
  a sub-segment: \<open>split(' ')\<close> gives the one word \<open>''\<close> for the empty text, and three
  such words for two spaces.
\<close>

theorem chunk_empty_text:
  "chunk maxWordsPerSegment \<lparr>seg_start = Fin 0, seg_end = Fin 1, seg_text = []\<rparr> =
     [\<lparr>sub_start = Fin 0, sub_end = Fin 1, sub_text = [], sub_words = [[]]\<rparr>] \<and>
   chunk maxWordsPerSegment \<lparr>seg_start = Fin 0, seg_end = Fin 1, seg_text = ''  ''\<rparr> =
     [\<lparr>sub_start = Fin 0, sub_end = Fin 1, sub_text = ''  '', sub_words = [[], [], []]\<rparr>]"
proof -
  have "chunk maxWordsPerSegment \<lparr>seg_start = Fin 0, seg_end = Fin 1, seg_text = []\<rparr> =
     [\<lparr>sub_start = Fin 0, sub_end = Fin 1, sub_text = [], sub_words = [[]]\<rparr>]"
    by code_simp
  moreover have "chunk maxWordsPerSegment \<lparr>seg_start = Fin 0, seg_end = Fin 1, seg_text = ''  ''\<rparr> =
     [\<lparr>sub_start = Fin 0, sub_end = Fin 1, sub_text = ''  '', sub_words = [[], [], []]\<rparr>]"
    by code_simp
  ultimately show ?thesis by simp
qed

lemma chunk_of_empty_text:
  assumes "0 < m" and "seg_text c = []"
  shows "map sub_words (chunk m c) = [[[]]]" and "map sub_text (chunk m c) = [[]]"
proof -
  from chunk_first [OF assms(1), of c] assms(2) obtain d where
    f: "chunk m c = chunk_piece m c [[]] d 0 # chunk_for m c [[]] d (0 + m) []"
    by auto
  have dn: "chunk_for m c [[]] d (0 + m) [] = []"
    using assms(1) by (intro chunk_for_done) simp
  from assms(1) have t: "take m [[]] = [[]::string]" by (cases m) simp_all
  show "map sub_words (chunk m c) = [[[]]]"
    unfolding f dn by (simp add: chunk_piece_def t)
  show "map sub_text (chunk m c) = [[]]"
    unfolding f dn by (simp add: chunk_piece_def t)
qed

text \<open>
  Claim C8, as amended. The chunking loop yields no sub-segment only for a word list of
  length zero, which \<open>text.split(' ')\<close> never returns. So for a positive number of words
  per chunk \<open>chunk\<close> never returns an empty sequence; for the empty text it returns
  exactly one sub-segment, whose word list is \<open>['']\<close> and whose text is empty.
\<close>

theorem chunk_never_empty:
  "chunk_for m c [] d 0 [] = [] \<and> js_split '' '' t \<noteq> [] \<and>
   (0 < m \<longrightarrow>
      chunk m c \<noteq> [] \<and>
      (seg_text c = [] \<longrightarrow> map sub_words (chunk m c) = [[[]]] \<and> map sub_text (chunk m c) = [[]]))"
proof (intro conjI impI)
  show "chunk_for m c [] d 0 [] = []" by (simp add: chunk_for_done)
  show "js_split '' '' t \<noteq> []" by (rule js_split_nonempty)
next
  assume m: "0 < m"
  from chunk_first [OF m, of c] show "chunk m c \<noteq> []" by auto
  assume t: "seg_text c = []"
  show "map sub_words (chunk m c) = [[[]]]" using m t by (rule chunk_of_empty_text(1))
  show "map sub_text (chunk m c) = [[]]" using m t by (rule chunk_of_empty_text(2))
qed

theorem chunk_never_empty_witness:
  "map sub_words (chunk maxWordsPerSegment \<lparr>seg_start = Fin 2, seg_end = Fin 5, seg_text = []\<rparr>) =
     [[[]]] \<and>
   map sub_text (chunk maxWordsPerSegment \<lparr>seg_start = Fin 2, seg_end = Fin 5, seg_text = []\<rparr>) =
     [[]] \<and>
   chunk maxWordsPerSegment \<lparr>seg_start = Fin 2, seg_end = Fin 5, seg_text = '' ''\<rparr> \<noteq> []"
proof -
  have m: "0 < maxWordsPerSegment" by (simp add: maxWordsPerSegment_def)
  have t: "seg_text \<lparr>seg_start = Fin 2, seg_end = Fin 5, seg_text = []\<rparr> = []" by simp
  from chunk_never_empty [of maxWordsPerSegment "\<lparr>seg_start = Fin 2, seg_end = Fin 5, seg_text = []\<rparr>"] m t
  have "map sub_words (chunk maxWordsPerSegment \<lparr>seg_start = Fin 2, seg_end = Fin 5, seg_text = []\<rparr>) =
     [[[]]]"
    and "map sub_text (chunk maxWordsPerSegment \<lparr>seg_start = Fin 2, seg_end = Fin 5, seg_text = []\<rparr>) =
     [[]]"
    by blast+
  moreover from chunk_never_empty [of maxWordsPerSegment
      "\<lparr>seg_start = Fin 2, seg_end = Fin 5, seg_text = '' ''\<rparr>"] m
  have "chunk maxWordsPerSegment \<lparr>seg_start = Fin 2, seg_end = Fin 5, seg_text = '' ''\<rparr> \<noteq> []"
    by blast
  ultimately show ?thesis by blast
qed

subsection \<open>The steps of cleanTextForSRT\<close>

lemma trim_subset: "set (trim x) \<subseteq> set x"
proof -
  have "set (dropWhile is_space (rev (dropWhile is_space x))) \<subseteq> set (rev (dropWhile is_space x))"
    by (rule set_dropWhileD [THEN subsetI])
  also have "\<dots> \<subseteq> set x" by (auto dest: set_dropWhileD)
  finally show ?thesis by (simp add: trim_def)
qed

lemma trim_ends:
  assumes "trim x \<noteq> []"
  shows "\<not> is_space (hd (trim x))" and "\<not> is_space (last (trim x))"
proof -
  define a where "a = dropWhile is_space x"
  define b where "b = dropWhile is_space (rev a)"
  have t: "trim x = rev b" by (simp add: trim_def a_def b_def)
  with assms have b: "b \<noteq> []" by simp
  then have "\<not> is_space (hd b)" unfolding b_def by (rule hd_dropWhile)
  with b show "\<not> is_space (last (trim x))" by (simp add: t last_rev)
  from b have ra: "rev a \<noteq> []" by (auto simp: b_def)
  then have a: "a \<noteq> []" by simp
  then have ha: "\<not> is_space (hd a)" unfolding a_def by (rule hd_dropWhile)
  have "rev a = takeWhile is_space (rev a) @ b" by (simp add: b_def)
  with b have "last (rev a) = last b" by (metis last_appendR)
  with a have "last b = hd a" by (simp add: last_rev)
  with b ha show "\<not> is_space (hd (trim x))" by (simp add: t hd_rev)
qed

lemma trim_id:
  assumes "s \<noteq> []" and "\<not> is_space (hd s)" and "\<not> is_space (last s)"
  shows "trim s = s"
proof -
  from assms(1,2) have "dropWhile is_space s = s" by (cases s) auto
  moreover from assms(1,3) have "dropWhile is_space (rev s) = rev s"
    by (cases s rule: rev_cases) auto
  ultimately show ?thesis by (simp add: trim_def)
qed

lemma spaced_Cons: "\<not> is_space c \<Longrightarrow> spaced (c # s) = spaced s"
  by (cases s) auto

lemma spaced_last: "spaced s \<Longrightarrow> s \<noteq> [] \<Longrightarrow> \<not> is_space (last s)"
  by (induction s rule: spaced.induct) auto



lemma collapse_spaces_hd:
  "s \<noteq> [] \<Longrightarrow> \<not> is_space (hd s) \<Longrightarrow> collapse_spaces s = hd s # collapse_spaces (tl s)"
  by (cases s) auto

lemma collapse_spaces_spaced:
  "s = [] \<or> \<not> is_space (last s) \<Longrightarrow> spaced (collapse_spaces s)"
proof (induction s rule: collapse_spaces.induct)
  case 1
  show ?case by simp
next
  case (2 c cs)
  show ?case
  proof (cases "is_space c")
    case True
    define r where "r = dropWhile is_space cs"
    from 2(3) True have cs: "cs \<noteq> []" "\<not> is_space (last cs)" by (auto split: if_splits)
    then have "last cs \<in> set cs" by simp
    with cs have r: "r \<noteq> []" by (auto simp: r_def dropWhile_eq_Nil_conv)
    then have hr: "\<not> is_space (hd r)" unfolding r_def by (rule hd_dropWhile)
    have "cs = takeWhile is_space cs @ r" by (simp add: r_def)
    with r have "last cs = last r" by (metis last_appendR)
    with cs have "r = [] \<or> \<not> is_space (last r)" by simp
    with 2(1) [OF True] have "spaced (collapse_spaces r)" by (simp add: r_def)
    with r hr True show ?thesis
      by (simp add: r_def [symmetric] collapse_spaces_hd)
  next
    case False
    from 2(3) have "cs = [] \<or> \<not> is_space (last cs)" by (auto split: if_splits)
    with 2(2) [OF False] False show ?thesis by (simp add: spaced_Cons)
  qed
qed

lemma collapse_spaces_subset: "set (collapse_spaces s) \<subseteq> insert CHR '' '' (set s)"
proof (induction s rule: collapse_spaces.induct)
  case 1
  show ?case by simp
next
  case (2 c cs)
  have "set (dropWhile is_space cs) \<subseteq> set cs" by (auto dest: set_dropWhileD)
  with 2 show ?case by auto
qed

lemma collapse_spaces_id: "spaced s \<Longrightarrow> collapse_spaces s = s"
  by (induction s rule: spaced.induct) auto

lemma strip_tags_no_open: "CHR ''<'' \<notin> set s \<Longrightarrow> strip_tags s = s"
  by (induction s) auto

lemma strip_tags_no_close: "CHR ''>'' \<notin> set s \<Longrightarrow> strip_tags s = s"
  by (induction s) auto

lemma strip_tags_id: "tag_free s \<Longrightarrow> strip_tags s = s"
  unfolding tag_free_def using strip_tags_no_open strip_tags_no_close by blast

lemma nsbp_Cons: "\<not> is_space c \<Longrightarrow> no_space_before_punct (c # s) = no_space_before_punct s"
  by (cases s) auto

lemma punct_not_space: "is_punct c \<Longrightarrow> \<not> is_space c"
  by (auto simp: is_punct_def is_space_def)

lemma unspace_punct_keep: "\<not> is_space c \<Longrightarrow> unspace_punct (c # s) = c # unspace_punct s"
  by simp

text \<open>On spaced text a white space is a single space before a character that is kept.\<close>

lemma unspace_punct_space:
  assumes "is_space c" and "\<not> is_space d"
  shows "unspace_punct (c # d # s) =
           (if is_punct d then d # unspace_punct s else c # d # unspace_punct s)"
  using assms by simp

lemma unspace_punct_shape:
  "spaced s \<Longrightarrow> spaced (unspace_punct s) \<and> no_space_before_punct (unspace_punct s) \<and>
     (s \<noteq> [] \<longrightarrow> \<not> is_space (hd s) \<longrightarrow> unspace_punct s \<noteq> [] \<and> hd (unspace_punct s) = hd s)"
proof (induction s rule: spaced.induct)
  case 1
  show ?case by simp
next
  case (2 c)
  then show ?case by simp
next
  case (3 c d s)
  from 3(2) have sp: "spaced (d # s)" by simp
  note ih = 3(1) [OF sp]
  show ?case
  proof (cases "is_space c")
    case True
    with 3(2) have c: "c = CHR '' ''" and d: "\<not> is_space d" by auto
    from d have ud: "unspace_punct (d # s) = d # unspace_punct s" by simp
    show ?thesis
    proof (cases "is_punct d")
      case True
      with \<open>is_space c\<close> d ih ud show ?thesis
        by simp
    next
      case False
      have "unspace_punct (c # d # s) = c # d # unspace_punct s"
        using \<open>is_space c\<close> d False by simp
      with ih ud c d False True show ?thesis by simp
    qed
  next
    case False
    then have "unspace_punct (c # d # s) = c # unspace_punct (d # s)"
      by (rule unspace_punct_keep)
    with False ih show ?thesis by (simp add: spaced_Cons nsbp_Cons del: unspace_punct.simps)
  qed
qed

lemma unspace_punct_subset: "set (unspace_punct s) \<subseteq> set s"
proof (induction s rule: unspace_punct.induct)
  case 1
  show ?case by simp
next
  case (2 c cs)
  show ?case
  proof (cases "is_space c")
    case False
    with 2(4) show ?thesis by auto
  next
    case True
    note sp = this
    show ?thesis
    proof (cases "dropWhile is_space cs")
      case Nil
      from 2(1) [OF sp Nil] sp show ?thesis by (auto simp: Nil)
    next
      case (Cons p r)
      have "set (dropWhile is_space cs) \<subseteq> set cs" by (auto dest: set_dropWhileD)
      then have sub: "p \<in> set cs" "set r \<subseteq> set cs" by (simp_all add: Cons)
      show ?thesis
      proof (cases "is_punct p")
        case True
        from 2(2) [OF sp Cons True] sub sp True show ?thesis by (auto simp: Cons)
      next
        case False
        from 2(3) [OF sp Cons False] sp False show ?thesis by (auto simp: Cons)
      qed
    qed
  qed
qed

lemma unspace_punct_id: "spaced s \<Longrightarrow> no_space_before_punct s \<Longrightarrow> unspace_punct s = s"
proof (induction s rule: spaced.induct)
  case 1
  show ?case by simp
next
  case (2 c)
  then show ?case by simp
next
  case (3 c d s)
  then have ih: "unspace_punct (d # s) = d # s" by simp
  show ?case
  proof (cases "is_space c")
    case True
    with 3(2,3) have d: "\<not> is_space d" "\<not> is_punct d" by auto
    then have "unspace_punct (d # s) = d # unspace_punct s" by simp
    with ih have "unspace_punct s = s" by simp
    with True d show ?thesis by simp
  next
    case False
    then have "unspace_punct (c # d # s) = c # unspace_punct (d # s)"
      by (rule unspace_punct_keep)
    with ih show ?thesis by (simp only:)
  qed
qed

lemma upper_range:
  assumes "is_lower a"
  shows "65 \<le> (of_char (toUpperCase a) :: nat)" and "(of_char (toUpperCase a) :: nat) \<le> 90"
proof -
  define n where "n = (of_char a :: nat)"
  from assms have n: "97 \<le> n" "n \<le> 122" by (simp_all add: is_lower_def n_def)
  then have "(n - 32) mod 256 = n - 32" by simp
  then have "(of_char (toUpperCase a) :: nat) = n - 32"
    using assms by (simp add: toUpperCase_def n_def)
  with n show "65 \<le> (of_char (toUpperCase a) :: nat)" and "(of_char (toUpperCase a) :: nat) \<le> 90"
    by simp_all
qed

lemma upper_class:
  assumes "is_lower a"
  shows "\<not> is_space (toUpperCase a)" "\<not> is_punct (toUpperCase a)" "\<not> is_lower (toUpperCase a)"
    "toUpperCase a \<noteq> CHR ''<''" "toUpperCase a \<noteq> CHR ''>''"
  using upper_range [OF assms]
  by (auto simp: is_space_def is_punct_def is_lower_def)

lemma lower_class:
  assumes "is_lower a"
  shows "\<not> is_space a" "\<not> is_punct a" "a \<noteq> CHR ''<''" "a \<noteq> CHR ''>''"
  using assms by (auto simp: is_space_def is_punct_def is_lower_def)

lemma upcase_of_refl: "upcase_of a a"
  by (simp add: upcase_of_def)

lemma upcase_of_class:
  assumes "upcase_of a b"
  shows "is_space b = is_space a" "is_punct b = is_punct a"
    "(b = CHR ''<'') = (a = CHR ''<'')" "(b = CHR ''>'') = (a = CHR ''>'')"
    "is_lower b \<Longrightarrow> is_lower a"
  using assms upper_class [of a] lower_class [of a]
  by (auto simp: upcase_of_def)

lemma upcase_space_char:
  assumes "upcase_of a b" and "is_space a"
  shows "b = a"
  using assms lower_class(1) [of a] by (auto simp: upcase_of_def)

lemma capitalize_match:
  assumes "is_punct c" and "lower_after_spaces cs"
  shows "capitalize_sentences (c # cs) =
     c # takeWhile is_space cs @ toUpperCase (hd (dropWhile is_space cs)) #
       capitalize_sentences (tl (dropWhile is_space cs))"
proof -
  from assms(2) obtain l r where d: "dropWhile is_space cs = l # r" and l: "is_lower l"
    and cs: "cs \<noteq> []" "is_space (hd cs)"
    by (auto simp: lower_after_spaces_def split: list.splits)
  show ?thesis using assms(1) l cs by (simp add: d)
qed

lemma capitalize_skip:
  assumes "\<not> (is_punct c \<and> lower_after_spaces cs)"
  shows "capitalize_sentences (c # cs) = c # capitalize_sentences cs"
proof (cases "is_punct c \<and> cs \<noteq> [] \<and> is_space (hd cs)")
  case False
  then show ?thesis by auto
next
  case True
  show ?thesis
  proof (cases "dropWhile is_space cs")
    case Nil
    with True show ?thesis by (simp add: Nil)
  next
    case (Cons l r)
    with True assms have "\<not> is_lower l" by (simp add: lower_after_spaces_def)
    with True show ?thesis by (simp add: Cons)
  qed
qed

declare capitalize_sentences.simps(2) [simp del]

lemma lower_after_spaces_parts:
  assumes "lower_after_spaces cs"
  shows "cs = takeWhile is_space cs @ hd (dropWhile is_space cs) # tl (dropWhile is_space cs)"
    and "is_lower (hd (dropWhile is_space cs))"
    and "length (tl (dropWhile is_space cs)) < length cs"
proof -
  from assms obtain l r where d: "dropWhile is_space cs = l # r" and l: "is_lower l"
    by (auto simp: lower_after_spaces_def split: list.splits)
  have "cs = takeWhile is_space cs @ dropWhile is_space cs" by simp
  then show "cs = takeWhile is_space cs @ hd (dropWhile is_space cs) # tl (dropWhile is_space cs)"
    by (simp add: d)
  from l d show "is_lower (hd (dropWhile is_space cs))" by simp
  have "length (dropWhile is_space cs) \<le> length cs" by (rule length_dropWhile_le)
  then show "length (tl (dropWhile is_space cs)) < length cs" by (simp add: d)
qed

lemma capitalize_sentences_upcase: "list_all2 upcase_of s (capitalize_sentences s)"
proof (induction "length s" arbitrary: s rule: less_induct)
  case less
  show ?case
  proof (cases s)
    case Nil
    then show ?thesis by simp
  next
    case (Cons c cs)
    show ?thesis
    proof (cases "is_punct c \<and> lower_after_spaces cs")
      case True
      let ?l = "hd (dropWhile is_space cs)" and ?r = "tl (dropWhile is_space cs)"
      note parts = lower_after_spaces_parts [OF True [THEN conjunct2]]
      from parts(3) Cons have "length ?r < length s" by simp
      then have ih: "list_all2 upcase_of ?r (capitalize_sentences ?r)" by (rule less)
      have u: "upcase_of ?l (toUpperCase ?l)" using parts(2) by (simp add: upcase_of_def)
      have "list_all2 upcase_of (c # takeWhile is_space cs @ ?l # ?r)
          (c # takeWhile is_space cs @ toUpperCase ?l # capitalize_sentences ?r)"
        using ih u by (simp add: upcase_of_refl list_all2_appendI list_all2_refl)
      with parts(1) Cons True show ?thesis
        by (simp only: capitalize_match)
    next
      case False
      from Cons have "length cs < length s" by simp
      then have "list_all2 upcase_of cs (capitalize_sentences cs)" by (rule less)
      moreover have "capitalize_sentences (c # cs) = c # capitalize_sentences cs"
        using False by (rule capitalize_skip)
      ultimately show ?thesis
        using Cons by (simp add: upcase_of_refl)
    qed
  qed
qed

lemma upcase_dropWhile:
  "list_all2 upcase_of s s' \<Longrightarrow>
     list_all2 upcase_of (dropWhile is_space s) (dropWhile is_space s')"
  by (induction rule: list_all2_induct) (auto simp: upcase_of_class(1))

lemma upcase_lower_after_spaces:
  assumes "list_all2 upcase_of s s'" and "lower_after_spaces s'"
  shows "lower_after_spaces s"
proof -
  from assms(2) obtain l' r' where d': "dropWhile is_space s' = l' # r'" and l': "is_lower l'"
    and s': "s' \<noteq> []" "is_space (hd s')"
    by (auto simp: lower_after_spaces_def split: list.splits)
  from assms(1) s' obtain a as b bs where s: "s = a # as" "s' = b # bs" "upcase_of a b"
    by (cases s; cases s') auto
  with s'(2) have hs: "s \<noteq> []" "is_space (hd s)" by (simp_all add: upcase_of_class(1))
  from upcase_dropWhile [OF assms(1)] d' obtain l r where d: "dropWhile is_space s = l # r"
    and "upcase_of l l'"
    by (auto simp: list_all2_Cons2)
  with l' have "is_lower l" by (simp add: upcase_of_class(5))
  with hs d show ?thesis by (simp add: lower_after_spaces_def)
qed

lemma capped_spaces: "\<forall>x \<in> set ws. is_space x \<Longrightarrow> capped (ws @ t) = capped t"
  by (induction ws) (auto simp: punct_not_space)

lemma capped_capitalize_sentences: "capped (capitalize_sentences s)"
proof (induction "length s" arbitrary: s rule: less_induct)
  case less
  show ?case
  proof (cases s)
    case Nil
    then show ?thesis by simp
  next
    case (Cons c cs)
    show ?thesis
    proof (cases "is_punct c \<and> lower_after_spaces cs")
      case True
      let ?l = "hd (dropWhile is_space cs)" and ?r = "tl (dropWhile is_space cs)"
      let ?w = "takeWhile is_space cs"
      note parts = lower_after_spaces_parts [OF True [THEN conjunct2]]
      from parts(3) Cons have "length ?r < length s" by simp
      then have ih: "capped (capitalize_sentences ?r)" by (rule less)
      have w: "\<forall>x \<in> set ?w. is_space x" by (auto dest: set_takeWhileD)
      note up = upper_class [OF parts(2)]
      have "dropWhile is_space (?w @ toUpperCase ?l # capitalize_sentences ?r) =
          toUpperCase ?l # capitalize_sentences ?r"
        using w up(1) by (simp add: dropWhile_append)
      then have "\<not> lower_after_spaces (?w @ toUpperCase ?l # capitalize_sentences ?r)"
        using up(3) by (simp add: lower_after_spaces_def)
      moreover have "capped (?w @ toUpperCase ?l # capitalize_sentences ?r)"
        using ih up(2) by (simp add: capped_spaces [OF w])
      ultimately have "capped (c # ?w @ toUpperCase ?l # capitalize_sentences ?r)" by simp
      with True Cons show ?thesis by (simp only: capitalize_match)
    next
      case False
      from Cons have "length cs < length s" by simp
      then have ih: "capped (capitalize_sentences cs)" by (rule less)
      have "\<not> (is_punct c \<and> lower_after_spaces (capitalize_sentences cs))"
        using False upcase_lower_after_spaces [OF capitalize_sentences_upcase] by blast
      with ih have "capped (c # capitalize_sentences cs)" by simp
      moreover have "capitalize_sentences (c # cs) = c # capitalize_sentences cs"
        using False by (rule capitalize_skip)
      ultimately show ?thesis using Cons by simp
    qed
  qed
qed

lemma capitalize_sentences_id: "capped s \<Longrightarrow> capitalize_sentences s = s"
proof (induction s)
  case Nil
  show ?case by simp
next
  case (Cons c cs)
  then have "\<not> (is_punct c \<and> lower_after_spaces cs)" and "capitalize_sentences cs = cs"
    by simp_all
  then show ?case by (simp add: capitalize_skip)
qed

lemma capitalize_first_upcase: "list_all2 upcase_of s (capitalize_first s)"
  by (cases s) (simp_all add: upcase_of_def list_all2_refl)

lemma capitalize_first_capped: "capped s \<Longrightarrow> capped (capitalize_first s)"
  by (cases s) (auto simp: upper_class(2))

lemma capitalize_first_head:
  "capitalize_first s = [] \<or> \<not> is_lower (hd (capitalize_first s))"
  by (cases s) (simp_all add: upper_class(3))

lemma capitalize_first_id: "s = [] \<or> \<not> is_lower (hd s) \<Longrightarrow> capitalize_first s = s"
  by (cases s) auto

text \<open>Putting letters in upper case changes no white space, no punctuation and no bracket.\<close>

lemma upcase_spaced: "list_all2 upcase_of s s' \<Longrightarrow> spaced s \<Longrightarrow> spaced s'"
proof (induction s arbitrary: s' rule: spaced.induct)
  case 1
  then show ?case by simp
next
  case (2 c)
  then show ?case by (auto simp: list_all2_Cons1 upcase_of_class(1))
next
  case (3 c d s)
  from 3(2) obtain c' d' t' where s': "s' = c' # d' # t'" and u: "upcase_of c c'" "upcase_of d d'"
    and r: "list_all2 upcase_of (d # s) (d' # t')"
    by (auto simp: list_all2_Cons1)
  from 3(3) have "spaced (d # s)" by simp
  with 3(1) r have "spaced (d' # t')" by blast
  moreover from 3(3) u have "\<not> is_space c' \<or> (c' = CHR '' '' \<and> \<not> is_space d')"
    using upcase_space_char [OF u(1)] by (auto simp: upcase_of_class(1))
  ultimately show ?case by (simp add: s')
qed

lemma upcase_no_space_before_punct:
  "list_all2 upcase_of s s' \<Longrightarrow> no_space_before_punct s \<Longrightarrow> no_space_before_punct s'"
proof (induction s arbitrary: s' rule: no_space_before_punct.induct)
  case (1 c d s)
  from 1(2) obtain c' d' t' where s': "s' = c' # d' # t'" and u: "upcase_of c c'" "upcase_of d d'"
    and r: "list_all2 upcase_of (d # s) (d' # t')"
    by (auto simp: list_all2_Cons1)
  from 1(3) have "no_space_before_punct (d # s)" by simp
  with 1(1) r have "no_space_before_punct (d' # t')" by blast
  moreover from 1(3) u have "\<not> (is_space c' \<and> is_punct d')"
    by (simp add: upcase_of_class(1,2))
  ultimately show ?case by (simp add: s')
qed (auto simp: list_all2_Cons1)

lemma upcase_open_bracket:
  "list_all2 upcase_of s s' \<Longrightarrow> (CHR ''<'' \<in> set s') = (CHR ''<'' \<in> set s)"
proof (induction rule: list_all2_induct)
  case Nil
  show ?case by simp
next
  case (Cons x xs y ys)
  from Cons(1) have "(y = CHR ''<'') = (x = CHR ''<'')" by (rule upcase_of_class(3))
  with Cons(3) show ?case by auto
qed

lemma upcase_close_bracket:
  "list_all2 upcase_of s s' \<Longrightarrow> (CHR ''>'' \<in> set s') = (CHR ''>'' \<in> set s)"
proof (induction rule: list_all2_induct)
  case Nil
  show ?case by simp
next
  case (Cons x xs y ys)
  from Cons(1) have "(y = CHR ''>'') = (x = CHR ''>'')" by (rule upcase_of_class(4))
  with Cons(3) show ?case by auto
qed

lemma upcase_tag_free: "list_all2 upcase_of s s' \<Longrightarrow> tag_free s \<Longrightarrow> tag_free s'"
  by (simp add: tag_free_def upcase_open_bracket upcase_close_bracket)

lemma upcase_head:
  assumes "list_all2 upcase_of s s'" and "s \<noteq> []" and "\<not> is_space (hd s)"
  shows "s' \<noteq> [] \<and> \<not> is_space (hd s')"
proof -
  from assms(1,2) obtain a as b bs where "s = a # as" "s' = b # bs" "upcase_of a b"
    by (cases s; cases s') auto
  with assms(3) show ?thesis by (simp add: upcase_of_class(1))
qed

subsection \<open>The shape of a cleaned text\<close>

lemma tag_free_subset: "tag_free s \<Longrightarrow> set t \<subseteq> insert CHR '' '' (set s) \<Longrightarrow> tag_free t"
  by (auto simp: tag_free_def)

lemma clean_shape:
  assumes "tag_free x"
  shows "spaced (cleanTextForSRT x) \<and>
         (cleanTextForSRT x = [] \<or> \<not> is_space (hd (cleanTextForSRT x))) \<and>
         tag_free (cleanTextForSRT x) \<and>
         no_space_before_punct (cleanTextForSRT x) \<and>
         capped (cleanTextForSRT x) \<and>
         (cleanTextForSRT x = [] \<or> \<not> is_lower (hd (cleanTextForSRT x))) \<and>
         (trim x \<noteq> [] \<longrightarrow> cleanTextForSRT x \<noteq> [])"
proof (cases "x = []")
  case True
  then show ?thesis by (simp add: cleanTextForSRT_def tag_free_def trim_def)
next
  case False
  define t1 where "t1 = trim x"
  define t2 where "t2 = collapse_spaces t1"
  define t4 where "t4 = unspace_punct t2"
  define t5 where "t5 = capitalize_sentences t4"
  define t6 where "t6 = capitalize_first t5"
  have f1: "tag_free t1" using assms trim_subset [of x] by (auto simp: tag_free_def t1_def)
  have e1: "t1 = [] \<or> \<not> is_space (last t1)" using trim_ends(2) [of x] by (auto simp: t1_def)
  have s2: "spaced t2" unfolding t2_def using e1 by (rule collapse_spaces_spaced)
  have f2: "tag_free t2" using f1 collapse_spaces_subset [of t1] unfolding t2_def
    by (rule tag_free_subset)
  have h2: "t1 \<noteq> [] \<longrightarrow> t2 \<noteq> [] \<and> \<not> is_space (hd t2)"
    using trim_ends(1) [of x] collapse_spaces_hd [of t1] by (auto simp: t1_def t2_def)
  have n2: "t1 = [] \<longrightarrow> t2 = []" by (simp add: t2_def)
  have t3: "strip_tags t2 = t2" using f2 by (rule strip_tags_id)
  note sh = unspace_punct_shape [OF s2, folded t4_def]
  have f4: "tag_free t4" using f2 unspace_punct_subset [of t2] unfolding t4_def
    by (auto simp: tag_free_def)
  have h4: "t1 \<noteq> [] \<longrightarrow> t4 \<noteq> [] \<and> \<not> is_space (hd t4)" using sh h2 by auto
  have n4: "t1 = [] \<longrightarrow> t4 = []" using n2 by (auto simp: t4_def)
  have u5: "list_all2 upcase_of t4 t5" unfolding t5_def by (rule capitalize_sentences_upcase)
  have u6: "list_all2 upcase_of t5 t6" unfolding t6_def by (rule capitalize_first_upcase)
  have s6: "spaced t6" using sh u5 u6 by (blast intro: upcase_spaced)
  have p6: "no_space_before_punct t6" using sh u5 u6 by (blast intro: upcase_no_space_before_punct)
  have f6: "tag_free t6" using f4 u5 u6 by (blast intro: upcase_tag_free)
  have c6: "capped t6" unfolding t6_def t5_def
    by (intro capitalize_first_capped capped_capitalize_sentences)
  have l6: "t6 = [] \<or> \<not> is_lower (hd t6)" unfolding t6_def by (rule capitalize_first_head)
  have h6: "t1 \<noteq> [] \<longrightarrow> t6 \<noteq> [] \<and> \<not> is_space (hd t6)"
    using h4 upcase_head [OF u5] upcase_head [OF u6] by blast
  have n6: "t1 = [] \<longrightarrow> t6 = []" using n4 by (auto simp: t5_def t6_def)
  have y: "cleanTextForSRT x = t6"
    using False by (simp add: cleanTextForSRT_def t6_def t5_def t4_def t3 [unfolded t2_def t1_def] t2_def t1_def)
  from s6 p6 f6 c6 l6 h6 n6 show ?thesis
    unfolding y t1_def [symmetric] by blast
qed

lemma clean_fixed:
  assumes "spaced y" and "y = [] \<or> \<not> is_space (hd y)" and "tag_free y"
    and "no_space_before_punct y" and "capped y" and "y = [] \<or> \<not> is_lower (hd y)"
  shows "cleanTextForSRT y = y" and "trim y = y"
proof -
  have t: "trim y = y"
  proof (cases "y = []")
    case True
    then show ?thesis by (simp add: trim_def)
  next
    case False
    with assms(1,2) show ?thesis by (intro trim_id spaced_last) auto
  qed
  then show "trim y = y" .
  have "capitalize_first y = y" using assms(6) by (rule capitalize_first_id)
  then show "cleanTextForSRT y = y"
    using assms
    by (simp add: cleanTextForSRT_def t collapse_spaces_id strip_tags_id unspace_punct_id
        capitalize_sentences_id)
qed

lemma clean_idempotent_tag_free:
  assumes "tag_free x"
  shows "cleanTextForSRT (cleanTextForSRT x) = cleanTextForSRT x"
  using clean_shape [OF assms] by (intro clean_fixed(1)) blast+

subsection \<open>Cleaning twice\<close>

text \<open>
  Against claim C4: on \<open>a <b> c\<close> the first cleaning leaves two spaces where the tag was
  (\<open>A  c\<close>), and the second one collapses them (\<open>A c\<close>).
\<close>

theorem clean_twice_differs:
  "cleanTextForSRT ''a <b> c'' = ''A  c'' \<and> cleanTextForSRT (cleanTextForSRT ''a <b> c'') = ''A c'' \<and>
   cleanTextForSRT (cleanTextForSRT ''a <b> c'') \<noteq> cleanTextForSRT ''a <b> c''"
proof -
  have "cleanTextForSRT ''a <b> c'' = ''A  c''" by code_simp
  moreover have "cleanTextForSRT ''A  c'' = ''A c''" by code_simp
  ultimately show ?thesis by simp
qed

text \<open>
  Claim C4, as amended. \<open>cleanTextForSRT\<close> is idempotent on every text that holds no
  markup: no \<open><\<close> at all, or no \<open>>\<close> at all.
\<close>

theorem clean_idempotent:
  "tag_free x \<Longrightarrow> cleanTextForSRT (cleanTextForSRT x) = cleanTextForSRT x"
  by (rule clean_idempotent_tag_free)

theorem clean_idempotent_witness:
  "tag_free ''  hello   world .  this is BAD ! ok '' \<and>
   cleanTextForSRT ''  hello   world .  this is BAD ! ok '' = ''Hello world. This is BAD! Ok'' \<and>
   cleanTextForSRT (cleanTextForSRT ''  hello   world .  this is BAD ! ok '') =
     ''Hello world. This is BAD! Ok''"
proof -
  have t: "tag_free ''  hello   world .  this is BAD ! ok ''" by code_simp
  have v: "cleanTextForSRT ''  hello   world .  this is BAD ! ok '' = ''Hello world. This is BAD! Ok''"
    by code_simp
  from clean_idempotent [OF t] t v show ?thesis by simp
qed

subsection \<open>Joining and splitting entries\<close>









subsection \<open>The printed time line\<close>





subsection \<open>One printed entry\<close>







subsection \<open>Printing a list of segments and reading it back\<close>












subsection \<open>The round trip through the subtitle format\<close>




end
